theory Spec2Isabelle
  imports Complex_Main "HOL-Library.Sublist"
begin

section \<open>Values of the host language\<close>

text \<open>
  Both chart components hand JavaScript values to the d3 library. A value that the
  extent functions inspect is \<open>undefined\<close>, \<open>null\<close>, a value that compares as
  \<open>NaN\<close> (the number \<open>NaN\<close>, or an Invalid Date), or a proper value of a linearly
  ordered type. A \<open>Date\<close> is represented by its time value (milliseconds, an
  integer), a price by a real number.
\<close>

datatype 'a jsval = Undefined | Null | NaN | Val 'a

text \<open>
  \<open>new Date(v)\<close> for \<open>v\<close> a Date, \<open>null\<close> or \<open>undefined\<close>: a Date copies the time
  value, \<open>null\<close> converts to the number 0 (the epoch), \<open>undefined\<close> yields an
  Invalid Date.
\<close>

fun new_Date :: "int jsval \<Rightarrow> int jsval" where
  "new_Date (Val t) = Val t"
| "new_Date Null = Val 0"
| "new_Date Undefined = NaN"
| "new_Date NaN = NaN"

subsection \<open>d3.extent, d3.min, d3.max\<close>

text \<open>
  One iteration of the loop of \<open>d3.extent\<close>: a value that is \<open>null\<close> or
  \<open>undefined\<close> is skipped; while no minimum is known the first value with
  \<open>value >= value\<close> becomes both minimum and maximum; afterwards the two comparisons
  \<open>min > value\<close> and \<open>max < value\<close> are both false on \<open>NaN\<close>.
\<close>

fun extent_step :: "'a::linorder jsval \<Rightarrow> 'a jsval \<times> 'a jsval \<Rightarrow> 'a jsval \<times> 'a jsval" where
  "extent_step (Val v) (Undefined, mx) = (Val v, Val v)"
| "extent_step (Val v) (Val mn, Val mx) =
     (if mn > v then Val v else Val mn, if mx < v then Val v else Val mx)"
| "extent_step v acc = acc"

definition d3_extent :: "'a::linorder jsval list \<Rightarrow> 'a jsval \<times> 'a jsval" where
  "d3_extent values = fold extent_step values (Undefined, Undefined)"

fun min_step :: "'a::linorder jsval \<Rightarrow> 'a jsval \<Rightarrow> 'a jsval" where
  "min_step (Val v) Undefined = Val v"
| "min_step (Val v) (Val m) = (if m > v then Val v else Val m)"
| "min_step v m = m"

definition d3_min :: "'a::linorder jsval list \<Rightarrow> 'a jsval" where
  "d3_min values = fold min_step values Undefined"

fun max_step :: "'a::linorder jsval \<Rightarrow> 'a jsval \<Rightarrow> 'a jsval" where
  "max_step (Val v) Undefined = Val v"
| "max_step (Val v) (Val m) = (if m < v then Val v else Val m)"
| "max_step v m = m"

definition d3_max :: "'a::linorder jsval list \<Rightarrow> 'a jsval" where
  "d3_max values = fold max_step values Undefined"

text \<open>The proper values among a list of JavaScript values.\<close>

fun proper :: "'a jsval list \<Rightarrow> 'a list" where
  "proper [] = []"
| "proper (Val v # vs) = v # proper vs"
| "proper (u # vs) = proper vs"

fun is_Val :: "'a jsval \<Rightarrow> bool" where
  "is_Val (Val v) = True"
| "is_Val u = False"

section \<open>Scales, axes and the zoom behaviour of d3\<close>

text \<open>
  A scale is its kind, its domain and its pixel range. The band scale's domain is
  the list of keys. Pixel quantities are real numbers.
\<close>

datatype key = Uuid nat | Str string

datatype scale =
    ScaleTime "int jsval \<times> int jsval" "real \<times> real"
  | ScaleLinear "real jsval \<times> real jsval" "real \<times> real"
  | ScaleBand "key option list" "real \<times> real"

fun range_of :: "scale \<Rightarrow> real \<times> real" where
  "range_of (ScaleTime d r) = r"
| "range_of (ScaleLinear d r) = r"
| "range_of (ScaleBand d r) = r"

fun set_range :: "real \<times> real \<Rightarrow> scale \<Rightarrow> scale" where
  "set_range r (ScaleTime d r0) = ScaleTime d r"
| "set_range r (ScaleLinear d r0) = ScaleLinear d r"
| "set_range r (ScaleBand d r0) = ScaleBand d r"

datatype orient = Top | Right | Bottom | Left

datatype tickArgument = TickCount nat | UtcFormat string

datatype tickFormat = DefaultFormat | NodeNameOfKey

record Axis =
  orient :: orient
  scale :: scale
  tickArguments :: "tickArgument list"
  tickFormat :: tickFormat
  tickSizeInner :: real
  tickSizeOuter :: real
  tickPadding :: real

text \<open>The constructor of d3-axis and the four setters the components call.\<close>

definition axis :: "orient \<Rightarrow> scale \<Rightarrow> Axis" where
  "axis ori sc = \<lparr>orient = ori, scale = sc, tickArguments = [], tickFormat = DefaultFormat,
     tickSizeInner = 6, tickSizeOuter = 6, tickPadding = 3\<rparr>"

definition set_tickSize :: "real \<Rightarrow> Axis \<Rightarrow> Axis" where
  "set_tickSize x a = a\<lparr>tickSizeInner := x, tickSizeOuter := x\<rparr>"

definition set_tickSizeOuter :: "real \<Rightarrow> Axis \<Rightarrow> Axis" where
  "set_tickSizeOuter x a = a\<lparr>tickSizeOuter := x\<rparr>"

definition set_ticks :: "tickArgument list \<Rightarrow> Axis \<Rightarrow> Axis" where
  "set_ticks args a = a\<lparr>tickArguments := args\<rparr>"

definition set_tickFormat :: "tickFormat \<Rightarrow> Axis \<Rightarrow> Axis" where
  "set_tickFormat f a = a\<lparr>tickFormat := f\<rparr>"

text \<open>
  d3-axis draws the line of every tick from the axis to the offset
  \<open>k * tickSizeInner\<close>, where \<open>k\<close> is \<open>-1\<close> for a top or left axis and \<open>1\<close>
  otherwise; the offset is measured downwards (x axes) or to the right (y axes).
\<close>

fun orient_sign :: "orient \<Rightarrow> real" where
  "orient_sign Top = -1"
| "orient_sign Left = -1"
| "orient_sign Bottom = 1"
| "orient_sign Right = 1"

definition tickLineEnd :: "Axis \<Rightarrow> real" where
  "tickLineEnd a = orient_sign (orient a) * tickSizeInner a"

text \<open>The transform of a zoom gesture; its fields are \<open>k\<close>, \<open>x\<close> and \<open>y\<close> in d3-zoom.\<close>

record Transform =
  tk :: real
  tx :: real
  ty :: real

definition applyY :: "Transform \<Rightarrow> real \<Rightarrow> real" where
  "applyY t v = v * tk t + ty t"

record Zoom =
  scaleExtent :: "real \<times> real"
  extent :: "(real \<times> real) \<times> (real \<times> real)"
  translateExtent :: "(real \<times> real) \<times> (real \<times> real)"

text \<open>
  How d3-zoom scales the current transform on a gesture: the requested factor is
  clamped to the scale extent.
\<close>

definition zoom_scale :: "Zoom \<Rightarrow> Transform \<Rightarrow> real \<Rightarrow> Transform" where
  "zoom_scale z t k' = t\<lparr>tk := max (fst (scaleExtent z)) (min (snd (scaleExtent z)) k')\<rparr>"

section \<open>What the two components share\<close>

record Padding =
  ptop :: real
  pright :: real
  pbottom :: real
  pleft :: real

record AxisLayer =
  layer_class :: string
  layer_axis :: Axis
  layer_translate :: "(real \<times> real) option"

record Chart =
  width :: real
  height :: real
  padding :: Padding
  xScale :: scale
  yScale :: scale
  xExtent :: "int jsval \<times> int jsval"
  xAxis :: Axis
  yAxis :: Axis
  xAxisLayer :: AxisLayer
  yAxisLayer :: AxisLayer

definition viewBoxWidth :: "'a Chart_scheme \<Rightarrow> real" where
  "viewBoxWidth c = width c"

definition canvasWidth :: "'a Chart_scheme \<Rightarrow> real" where
  "canvasWidth c = viewBoxWidth c - (pleft (padding c) + pright (padding c))"

section \<open>The time chart component\<close>

record Serie =
  date :: "int jsval"
  price :: "real jsval"

text \<open>
  The path element of the lines layer: its bound datum and the two scales its
  \<open>d\<close> attribute was generated from (the attribute is a function of the three; its
  floating-point geometry is not modelled).
\<close>

record LinePath =
  path_datum :: "Serie list"
  path_x :: scale
  path_y :: scale

record TimeChart = Chart +
  series :: "Serie list"
  yExtent :: "real jsval \<times> real jsval"
  zoom :: Zoom
  linesLayer :: "LinePath list"

definition viewBoxHeight_time :: "'a TimeChart_scheme \<Rightarrow> real" where
  "viewBoxHeight_time c = height c"

definition canvasHeight_time :: "'a TimeChart_scheme \<Rightarrow> real" where
  "canvasHeight_time c = viewBoxHeight_time c - (ptop (padding c) + pbottom (padding c))"

definition computeExtent_time :: "'a TimeChart_scheme \<Rightarrow> 'a TimeChart_scheme" where
  "computeExtent_time c =
     c\<lparr>xExtent := d3_extent (map date (series c)),
       yExtent := d3_extent (map price (series c))\<rparr>"

definition computeAxis_time :: "'a TimeChart_scheme \<Rightarrow> 'a TimeChart_scheme" where
  "computeAxis_time c =
     c\<lparr>yAxis := set_tickSize (- canvasWidth c) (axis Left (yScale c)),
       xAxis := set_ticks [TickCount 12, UtcFormat ''%Y/%m'']
                  (set_tickSizeOuter (- canvasHeight_time c) (axis Bottom (xScale c)))\<rparr>"

definition computeZoom :: "'a TimeChart_scheme \<Rightarrow> 'a TimeChart_scheme" where
  "computeZoom c =
     (let extent = ((0, 0), (canvasWidth c, canvasHeight_time c))
      in c\<lparr>zoom := \<lparr>scaleExtent = (1, 4), extent = extent, translateExtent = extent\<rparr>\<rparr>)"

definition renderAxis_time :: "'a TimeChart_scheme \<Rightarrow> 'a TimeChart_scheme" where
  "renderAxis_time c =
     c\<lparr>xAxisLayer := \<lparr>layer_class = ''axis x-axis'', layer_axis = xAxis c,
                       layer_translate = Some (0, canvasHeight_time c)\<rparr>,
       yAxisLayer := (yAxisLayer c)\<lparr>layer_class := ''axis y-axis'', layer_axis := yAxis c\<rparr>\<rparr>"

text \<open>
  \<open>renderLine\<close> joins the one-element data list \<open>[series]\<close> with the paths of the
  lines layer by index: the first path is updated, a missing one is appended, and
  no path is removed.
\<close>

definition renderLine :: "'a TimeChart_scheme \<Rightarrow> 'a TimeChart_scheme" where
  "renderLine c =
     (let p = \<lparr>path_datum = series c, path_x = xScale c, path_y = yScale c\<rparr>
      in c\<lparr>linesLayer := (case linesLayer c of [] \<Rightarrow> [p] | q # qs \<Rightarrow> p # qs)\<rparr>)"

definition render_time :: "'a TimeChart_scheme \<Rightarrow> 'a TimeChart_scheme" where
  "render_time c = renderLine (renderAxis_time c)"

text \<open>The zoom event carries the transform of the gesture.\<close>

definition zoomed :: "Transform \<Rightarrow> 'a TimeChart_scheme \<Rightarrow> 'a TimeChart_scheme" where
  "zoomed transform c =
     render_time (computeAxis_time
       (c\<lparr>yScale := set_range (applyY transform (canvasHeight_time c), applyY transform 0)
                       (yScale c)\<rparr>))"

section \<open>The Gantt chart component\<close>

subsection \<open>Records, the object store and the node tree of d3.hierarchy\<close>

text \<open>
  The records of the Gantt chart are JavaScript objects that the component mutates
  in place, so they live in a store from addresses to records. The fields \<open>end\<close>
  and \<open>_data\<close> of the source are \<open>end'\<close> and \<open>data'\<close> here. An array of records is
  the list of their addresses; \<open>None\<close> is \<open>null\<close> or \<open>undefined\<close> (both are falsy,
  an array, also the empty one, is truthy). A key is a string: \<open>Uuid n\<close> is the
  \<open>n\<close>-th string that \<open>uuidv4\<close> returns (the generator never repeats a value),
  \<open>Str s\<close> any other string.
\<close>

type_synonym addr = nat

record SerieGantt =
  name :: string
  start :: "int jsval"
  end' :: "int jsval"
  key :: "key option"
  data :: "addr list option"
  data' :: "addr list option"

type_synonym store = "addr \<Rightarrow> SerieGantt option"

datatype SerieGanttNode =
  Node (depth: nat) (node_height: nat) (ndata: addr) (parent: "addr option")
    (children: "SerieGanttNode list")

text \<open>
  \<open>d3.hierarchy(data, accessor)\<close>: the root node has depth 0, every child one more
  than its parent; a record whose accessor value is falsy or empty is a leaf. The
  back-reference \<open>parent\<close> is represented by the address of the parent's record. The
  store may hold a cyclic object graph, on which the library does not return;
  reading a child that is not an object throws. The traversal is therefore bounded
  by fuel: \<open>None\<close> means that no node tree is returned within it.
\<close>

definition computeHeight :: "SerieGanttNode list \<Rightarrow> nat" where
  "computeHeight cs = (if cs = [] then 0 else Suc (fold max (map node_height cs) 0))"

fun hierarchy_node ::
  "nat \<Rightarrow> store \<Rightarrow> (SerieGantt \<Rightarrow> addr list option) \<Rightarrow> nat \<Rightarrow> addr option \<Rightarrow> addr
    \<Rightarrow> SerieGanttNode option" where
  "hierarchy_node 0 h acc d p a = None"
| "hierarchy_node (Suc n) h acc d p a =
     (case h a of
        None \<Rightarrow> None
      | Some r \<Rightarrow>
          (case those (map (hierarchy_node n h acc (Suc d) (Some a))
                        (case acc r of None \<Rightarrow> [] | Some cs \<Rightarrow> cs)) of
             None \<Rightarrow> None
           | Some cs \<Rightarrow> Some (Node d (computeHeight cs) a p cs)))"

definition hierarchy ::
  "nat \<Rightarrow> store \<Rightarrow> addr \<Rightarrow> (SerieGantt \<Rightarrow> addr list option) \<Rightarrow> SerieGanttNode option" where
  "hierarchy fuel h rt acc = hierarchy_node fuel h acc 0 None rt"

text \<open>\<open>node.eachBefore(callback)\<close> visits the nodes in pre-order.\<close>

fun eachBefore :: "SerieGanttNode \<Rightarrow> SerieGanttNode list" where
  "eachBefore (Node d ht a p cs) = Node d ht a p cs # concat (map eachBefore cs)"

subsection \<open>The component and its environment\<close>

text \<open>
  A rectangle of the Gantt layer: the identity of the element, its bound datum, the
  class and the fill it received when it was created (the fill is the colour of a
  key under the colour scale of that moment), and the two scales its position and
  size were last targeted with.
\<close>

record Rect =
  eid :: nat
  datum :: SerieGanttNode
  rect_class :: string
  fill :: "key option \<times> scale"
  pos_x :: scale
  pos_y :: scale

text \<open>
  Besides the fields of the component the state holds what the component works on:
  the object store, the state of the uuid generator (the number of uuids handed out
  so far), the allocation counters of objects and elements, and the rectangles
  of the Gantt layer in the document.
\<close>

record GanttChart = Chart +
  rootKEY :: key
  serieSource :: addr
  seriesNodes :: "SerieGanttNode list"
  seriesNodeMap :: "key option \<Rightarrow> SerieGanttNode option"
  color :: scale
  ganttLayer :: "Rect list"
  heap :: store
  next_uuid :: nat
  next_addr :: nat
  next_eid :: nat

text \<open>Reading \<open>node.data.key\<close>, \<open>node.data.start\<close>, \<open>node.data.end\<close> and \<open>node.data.name\<close>.\<close>

definition key_of :: "store \<Rightarrow> SerieGanttNode \<Rightarrow> key option" where
  "key_of h n = (case h (ndata n) of None \<Rightarrow> None | Some r \<Rightarrow> key r)"

definition start_of :: "store \<Rightarrow> SerieGanttNode \<Rightarrow> int jsval" where
  "start_of h n = (case h (ndata n) of None \<Rightarrow> Undefined | Some r \<Rightarrow> start r)"

definition end_of :: "store \<Rightarrow> SerieGanttNode \<Rightarrow> int jsval" where
  "end_of h n = (case h (ndata n) of None \<Rightarrow> Undefined | Some r \<Rightarrow> end' r)"

definition name_of :: "store \<Rightarrow> SerieGanttNode \<Rightarrow> string" where
  "name_of h n = (case h (ndata n) of None \<Rightarrow> [] | Some r \<Rightarrow> name r)"

subsection \<open>preProcess\<close>

text \<open>
  The callback of \<open>map\<close> in \<open>preProcess\<close>: the record of the node receives the
  next uuid as its key, and its start and end are replaced by Dates.
\<close>

definition preProcess_map :: "SerieGanttNode \<Rightarrow> 'a GanttChart_scheme \<Rightarrow> 'a GanttChart_scheme" where
  "preProcess_map n c =
     (case heap c (ndata n) of
        None \<Rightarrow> c
      | Some r \<Rightarrow>
          c\<lparr>heap := (heap c)(ndata n \<mapsto>
                 r\<lparr>key := Some (Uuid (next_uuid c)),
                   start := new_Date (start r),
                   end' := new_Date (end' r)\<rparr>),
            next_uuid := Suc (next_uuid c)\<rparr>)"

definition preProcess ::
  "nat \<Rightarrow> addr \<Rightarrow> 'a GanttChart_scheme \<Rightarrow> (SerieGanttNode list \<times> 'a GanttChart_scheme) option" where
  "preProcess fuel src c =
     (case hierarchy fuel (heap c) src data of
        None \<Rightarrow> None
      | Some rt \<Rightarrow>
          (let nodes = filter (\<lambda>n. key_of (heap c) n \<noteq> Some (rootKEY c)) (eachBefore rt)
           in Some (nodes, fold preProcess_map nodes c)))"

text \<open>The object that \<open>reduce\<close> builds from the nodes, keyed by \<open>node.data.key\<close>.\<close>

definition nodeMap :: "store \<Rightarrow> SerieGanttNode list \<Rightarrow> key option \<Rightarrow> SerieGanttNode option" where
  "nodeMap h nodes = fold (\<lambda>curr acc. acc(key_of h curr \<mapsto> curr)) nodes Map.empty"

subsection \<open>compute\<close>

definition viewBoxHeight_gantt :: "'a GanttChart_scheme \<Rightarrow> real" where
  "viewBoxHeight_gantt c = real (length (seriesNodes c)) * 40"

definition canvasHeight_gantt :: "'a GanttChart_scheme \<Rightarrow> real" where
  "canvasHeight_gantt c = viewBoxHeight_gantt c - (ptop (padding c) + pbottom (padding c))"

definition computeExtent_gantt :: "'a GanttChart_scheme \<Rightarrow> 'a GanttChart_scheme" where
  "computeExtent_gantt c =
     c\<lparr>xExtent := (d3_min (map (start_of (heap c)) (seriesNodes c)),
                   d3_max (map (end_of (heap c)) (seriesNodes c)))\<rparr>"

text \<open>
  A time scale stores its domain as time values (as \<open>new Date\<close> converts them); a
  band scale keeps the first occurrence of every domain value.
\<close>

definition scaleTime :: "int jsval \<times> int jsval \<Rightarrow> real \<times> real \<Rightarrow> scale" where
  "scaleTime d r = ScaleTime (new_Date (fst d), new_Date (snd d)) r"

definition scaleBand :: "key option list \<Rightarrow> real \<times> real \<Rightarrow> scale" where
  "scaleBand d r = ScaleBand (fold (\<lambda>v acc. if v \<in> set acc then acc else acc @ [v]) d []) r"

definition computeScale_gantt :: "'a GanttChart_scheme \<Rightarrow> 'a GanttChart_scheme" where
  "computeScale_gantt c =
     c\<lparr>xScale := scaleTime (xExtent c) (0, canvasWidth c),
       yScale := scaleBand (map (key_of (heap c)) (seriesNodes c)) (0, canvasHeight_gantt c)\<rparr>"

definition computeAxis_gantt :: "'a GanttChart_scheme \<Rightarrow> 'a GanttChart_scheme" where
  "computeAxis_gantt c =
     c\<lparr>yAxis := set_tickFormat NodeNameOfKey
                  (set_tickSize (- canvasWidth c) (axis Left (yScale c))),
       xAxis := set_tickSize (- canvasHeight_gantt c)
                  (set_tickSizeOuter 0 (axis Top (xScale c)))\<rparr>"

definition computeColor :: "'a GanttChart_scheme \<Rightarrow> 'a GanttChart_scheme" where
  "computeColor c = c\<lparr>color := scaleBand (map (key_of (heap c)) (seriesNodes c)) (0, 1)\<rparr>"

definition compute_gantt :: "'a GanttChart_scheme \<Rightarrow> 'a GanttChart_scheme" where
  "compute_gantt c = computeColor (computeAxis_gantt (computeScale_gantt (computeExtent_gantt c)))"

subsection \<open>render\<close>

definition renderAxis_gantt :: "'a GanttChart_scheme \<Rightarrow> 'a GanttChart_scheme" where
  "renderAxis_gantt c =
     c\<lparr>xAxisLayer := (xAxisLayer c)\<lparr>layer_class := ''axis x-axis'', layer_axis := xAxis c\<rparr>,
       yAxisLayer := (yAxisLayer c)\<lparr>layer_class := ''axis x-axis'', layer_axis := yAxis c\<rparr>\<rparr>"

text \<open>
  The keyed data join of d3-selection (\<open>selection.data(data, key)\<close>). First the key
  of every element of the group is computed from its bound datum; an element whose
  key an earlier element has is a duplicate and exits. Then every datum takes the
  element stored under its key, which is rebound to the datum and leaves the map
  (update), or enters when there is none. At last the elements still in the map
  exit.
\<close>

definition bind_group ::
  "(SerieGanttNode \<Rightarrow> key option) \<Rightarrow> Rect list \<Rightarrow> (key option \<Rightarrow> Rect option) \<times> Rect list" where
  "bind_group kf grp =
     fold (\<lambda>node (m, dups).
             if m (kf (datum node)) \<noteq> None then (m, dups @ [node])
             else (m(kf (datum node) \<mapsto> node), dups))
          grp (Map.empty, [])"

fun bind_data ::
  "(SerieGanttNode \<Rightarrow> key option) \<Rightarrow> SerieGanttNode list \<Rightarrow> (key option \<Rightarrow> Rect option)
    \<Rightarrow> Rect option list \<times> SerieGanttNode option list \<times> (key option \<Rightarrow> Rect option)" where
  "bind_data kf [] m = ([], [], m)"
| "bind_data kf (d # ds) m =
     (case m (kf d) of
        Some node \<Rightarrow>
          (case bind_data kf ds (m(kf d := None)) of
             (update, enter, m') \<Rightarrow> (Some (node\<lparr>datum := d\<rparr>) # update, None # enter, m'))
      | None \<Rightarrow>
          (case bind_data kf ds m of
             (update, enter, m') \<Rightarrow> (None # update, Some d # enter, m')))"

definition bindKey ::
  "(SerieGanttNode \<Rightarrow> key option) \<Rightarrow> Rect list \<Rightarrow> SerieGanttNode list
    \<Rightarrow> Rect option list \<times> SerieGanttNode option list \<times> Rect list" where
  "bindKey kf grp dat =
     (case bind_group kf grp of
        (m0, dups) \<Rightarrow>
          (case bind_data kf dat m0 of
             (update, enter, m1) \<Rightarrow>
               (update, enter,
                filter (\<lambda>node. node \<in> set dups \<or> m1 (kf (datum node)) = Some node) grp)))"

text \<open>
  \<open>renderGantt\<close>: the update selection is retargeted to the current scales, every
  entering datum gets a new rectangle, and the exit selection is removed. The new
  rectangles are put after the remaining ones; the position of an appended element
  among its siblings is not modelled.
\<close>

fun opt_list :: "'a option \<Rightarrow> 'a list" where
  "opt_list None = []"
| "opt_list (Some v) = [v]"

fun enter_append ::
  "(nat \<Rightarrow> SerieGanttNode \<Rightarrow> Rect) \<Rightarrow> nat \<Rightarrow> SerieGanttNode option list \<Rightarrow> Rect list" where
  "enter_append mk n [] = []"
| "enter_append mk n (None # es) = enter_append mk n es"
| "enter_append mk n (Some d # es) = mk n d # enter_append mk (Suc n) es"

definition renderGantt :: "'a GanttChart_scheme \<Rightarrow> 'a GanttChart_scheme" where
  "renderGantt c =
     (case bindKey (key_of (heap c)) (ganttLayer c) (seriesNodes c) of
        (update, enter, exit) \<Rightarrow>
          (let target = (\<lambda>e. e\<lparr>pos_x := xScale c, pos_y := yScale c\<rparr>);
               updated = map target (concat (map opt_list update));
               entered = enter_append
                 (\<lambda>n d. target \<lparr>eid = n, datum = d, rect_class = name_of (heap c) d,
                           fill = (key_of (heap c) d, color c),
                           pos_x = xScale c, pos_y = yScale c\<rparr>)
                 (next_eid c) enter;
               kept = map (\<lambda>e. case find (\<lambda>u. eid u = eid e) updated of
                                   Some u \<Rightarrow> u | None \<Rightarrow> e)
                        (filter (\<lambda>e. e \<notin> set exit) (ganttLayer c))
           in c\<lparr>ganttLayer := kept @ entered,
                next_eid := next_eid c + length entered\<rparr>))"

text \<open>
  The keys that the join compares: of the rectangles in the layer (computed from
  their bound data) and of the nodes to draw.
\<close>

definition rect_key :: "store \<Rightarrow> Rect \<Rightarrow> key option" where
  "rect_key h e = key_of h (datum e)"

definition layer_keys :: "'a GanttChart_scheme \<Rightarrow> key option list" where
  "layer_keys c = map (rect_key (heap c)) (ganttLayer c)"

definition node_keys :: "'a GanttChart_scheme \<Rightarrow> key option list" where
  "node_keys c = map (key_of (heap c)) (seriesNodes c)"

definition render_gantt :: "'a GanttChart_scheme \<Rightarrow> 'a GanttChart_scheme" where
  "render_gantt c = renderGantt (renderAxis_gantt c)"

definition go_gantt :: "'a GanttChart_scheme \<Rightarrow> 'a GanttChart_scheme" where
  "go_gantt c = render_gantt (compute_gantt c)"

subsection \<open>click\<close>

text \<open>
  A click on a bar toggles the record of the bound node: a truthy \<open>data\<close> moves to
  \<open>_data\<close>, otherwise \<open>_data\<close> moves back; then the tree is flattened again, the
  node map rebuilt and the chart recomputed and rendered.
\<close>

definition toggle :: "SerieGantt \<Rightarrow> SerieGantt" where
  "toggle r = (if data r \<noteq> None then r\<lparr>data' := data r, data := None\<rparr>
               else r\<lparr>data := data' r, data' := None\<rparr>)"

definition click ::
  "nat \<Rightarrow> SerieGanttNode \<Rightarrow> 'a GanttChart_scheme \<Rightarrow> 'a GanttChart_scheme option" where
  "click fuel node c =
     (case heap c (ndata node) of
        None \<Rightarrow> None
      | Some r \<Rightarrow>
          (let c1 = c\<lparr>heap := (heap c)(ndata node \<mapsto> toggle r)\<rparr>
           in case preProcess fuel (serieSource c1) c1 of
                None \<Rightarrow> None
              | Some (nodes, c2) \<Rightarrow>
                  Some (go_gantt (c2\<lparr>seriesNodes := nodes,
                                     seriesNodeMap := nodeMap (heap c2) nodes\<rparr>))))"

subsection \<open>The series input\<close>

text \<open>
  The setter of the input \<open>series\<close> passes the array it is given to the helper
  \<open>clone\<close>, imported from \<open>./clone\<close>, and wraps what the helper returns into a new
  root record that carries the reserved key; the tree is then flattened and the
  node map built. The helper is not among the sources, so it is a parameter here:
  a function from the array and the store, with its allocation counter, to the
  array it returns and the store it leaves, or to nothing when it throws.
\<close>

definition set_series ::
  "(addr list \<Rightarrow> store \<times> nat \<Rightarrow> (addr list \<times> store \<times> nat) option) \<Rightarrow> nat \<Rightarrow> addr list \<Rightarrow>
     'a GanttChart_scheme \<Rightarrow> 'a GanttChart_scheme option" where
  "set_series clone fuel arr c =
     (case clone arr (heap c, next_addr c) of
        None \<Rightarrow> None
      | Some (cs, h1, nx1) \<Rightarrow>
          (let c1 = c\<lparr>heap := h1(nx1 \<mapsto>
                         \<lparr>name = ''root'', start = Null, end' = Null, key = Some (rootKEY c),
                          data = Some cs, data' = None\<rparr>),
                       next_addr := Suc nx1,
                       serieSource := nx1\<rparr>
           in case preProcess fuel (serieSource c1) c1 of
                None \<Rightarrow> None
              | Some (nodes, c2) \<Rightarrow>
                  Some (c2\<lparr>seriesNodes := nodes, seriesNodeMap := nodeMap (heap c2) nodes\<rparr>)))"

section \<open>Trees of records\<close>

text \<open>
  The shape of the part of the store that is reachable from a record through the
  visible child pointer: the address of the record and the shapes of its children.
\<close>

datatype rtree = RNode (raddr: addr) (rkids: "rtree list")

definition visible :: "SerieGantt \<Rightarrow> addr list" where
  "visible r = (case data r of None \<Rightarrow> [] | Some cs \<Rightarrow> cs)"

definition hidden :: "SerieGantt \<Rightarrow> addr list" where
  "hidden r = (case data' r of None \<Rightarrow> [] | Some cs \<Rightarrow> cs)"

fun shape :: "store \<Rightarrow> rtree \<Rightarrow> bool" where
  "shape h (RNode a ts) =
     (case h a of
        None \<Rightarrow> False
      | Some r \<Rightarrow> visible r = map raddr ts \<and> list_all (shape h) ts)"

text \<open>The records that are reachable from a record through visible child pointers.\<close>

inductive reach :: "store \<Rightarrow> addr \<Rightarrow> addr \<Rightarrow> bool" where
  reach_refl: "reach h a a"
| reach_step: "reach h a b \<Longrightarrow> h b = Some r \<Longrightarrow> c \<in> set (visible r) \<Longrightarrow> reach h a c"

text \<open>The records of a tree in pre-order, and the distance of each from the root.\<close>

fun preorder :: "rtree \<Rightarrow> addr list" where
  "preorder (RNode a ts) = a # concat (map preorder ts)"

fun distances :: "nat \<Rightarrow> rtree \<Rightarrow> nat list" where
  "distances d (RNode a ts) = d # concat (map (distances (Suc d)) ts)"

fun levels :: "rtree \<Rightarrow> nat" where
  "levels (RNode a ts) = Suc (fold max (map levels ts) 0)"

text \<open>
  The node tree that \<open>d3.hierarchy\<close> is expected to build over a tree of records,
  and the tree of records that remains visible when the record at an address is
  collapsed.
\<close>

fun build :: "nat \<Rightarrow> addr option \<Rightarrow> rtree \<Rightarrow> SerieGanttNode" where
  "build d p (RNode a ts) =
     Node d (computeHeight (map (build (Suc d) (Some a)) ts)) a p
       (map (build (Suc d) (Some a)) ts)"

definition flatten :: "rtree \<Rightarrow> SerieGanttNode list" where
  "flatten t = tl (eachBefore (build 0 None t))"

text \<open>What a flatten pass does to a listed record, given the uuid it draws.\<close>

definition processed :: "nat \<Rightarrow> SerieGantt \<Rightarrow> SerieGantt" where
  "processed u r =
     r\<lparr>key := Some (Uuid u), start := new_Date (start r), end' := new_Date (end' r)\<rparr>"

fun prune :: "addr \<Rightarrow> rtree \<Rightarrow> rtree" where
  "prune a (RNode b ts) = (if a = b then RNode b [] else RNode b (map (prune a) ts))"

text \<open>
  The state in which the component flattens a tree: the tree hangs at the given
  root record, no record occurs twice in it, the root record carries the reserved
  key and no other record of the tree does.
\<close>

definition rooted :: "'a GanttChart_scheme \<Rightarrow> addr \<Rightarrow> rtree \<Rightarrow> bool" where
  "rooted c src t =
     (raddr t = src \<and> shape (heap c) t \<and> distinct (preorder t) \<and>
      (case heap c src of None \<Rightarrow> False | Some r \<Rightarrow> key r = Some (rootKEY c)) \<and>
      list_all (\<lambda>a. case heap c a of None \<Rightarrow> False | Some r \<Rightarrow> key r \<noteq> Some (rootKEY c))
        (tl (preorder t)))"

text \<open>A key is older than \<open>n\<close> when it is not among the uuids still to come.\<close>

fun older :: "nat \<Rightarrow> key option \<Rightarrow> bool" where
  "older n (Some (Uuid j)) = (j < n)"
| "older n v = True"

fun is_Date :: "int jsval \<Rightarrow> bool" where
  "is_Date (Val t) = True"
| "is_Date NaN = True"
| "is_Date v = False"

text \<open>
  The state after a flatten pass: the node list is the flattened tree, the start
  and the end of every listed record are Dates, and no key in the tree or of the
  root is a uuid still to come.
\<close>

definition flattened :: "'a GanttChart_scheme \<Rightarrow> rtree \<Rightarrow> bool" where
  "flattened c t =
     (rooted c (serieSource c) t \<and>
      map ndata (seriesNodes c) = tl (preorder t) \<and>
      older (next_uuid c) (Some (rootKEY c)) \<and>
      list_all (\<lambda>a. case heap c a of
                      None \<Rightarrow> False
                    | Some r \<Rightarrow> is_Date (start r) \<and> is_Date (end' r))
        (tl (preorder t)))"

section \<open>Example states\<close>

text \<open>
  A time chart of 800 by 600 pixels with the default padding and the three points
  of the end-to-end scenario (dates as days since the epoch times 86400000).
\<close>

definition noAxis :: Axis where
  "noAxis = axis Bottom (ScaleLinear (Undefined, Undefined) (0, 1))"

definition noLayer :: AxisLayer where
  "noLayer = \<lparr>layer_class = [], layer_axis = noAxis, layer_translate = None\<rparr>"

definition exampleTime :: TimeChart where
  "exampleTime =
     \<lparr>width = 800, height = 600,
      padding = \<lparr>ptop = 15, pright = 20, pbottom = 20, pleft = 55\<rparr>,
      xScale = ScaleTime (Val 1577836800000, Val 1609459200000) (0, 725),
      yScale = ScaleLinear (Val 100, Val 200) (565, 0),
      xExtent = (Undefined, Undefined),
      xAxis = noAxis, yAxis = noAxis, xAxisLayer = noLayer, yAxisLayer = noLayer,
      series = [\<lparr>date = Val 1577836800000, price = Val 100\<rparr>,
                \<lparr>date = Val 1590969600000, price = Val 200\<rparr>,
                \<lparr>date = Val 1609459200000, price = Val 150\<rparr>],
      yExtent = (Undefined, Undefined),
      zoom = \<lparr>scaleExtent = (0, 0), extent = ((0, 0), (0, 0)), translateExtent = ((0, 0), (0, 0))\<rparr>,
      linesLayer = []\<rparr>"

text \<open>
  The Gantt chart of the collapse scenario after its first flatten pass: the root
  record at address 2 wraps the record A at address 0, whose only child is the
  record B at address 1 (days of January 2021 as time values).
\<close>

definition recordA :: SerieGantt where
  "recordA = \<lparr>name = ''A'', start = Val 1609459200000, end' = Val 1609804800000,
     key = Some (Uuid 1), data = Some [1], data' = None\<rparr>"

definition recordB :: SerieGantt where
  "recordB = \<lparr>name = ''B'', start = Val 1609545600000, end' = Val 1609632000000,
     key = Some (Uuid 2), data = None, data' = None\<rparr>"

definition recordRoot :: SerieGantt where
  "recordRoot = \<lparr>name = ''root'', start = Null, end' = Null,
     key = Some (Uuid 0), data = Some [0], data' = None\<rparr>"

text \<open>The same chart as the setter of the input leaves it before the first pass.\<close>

definition exampleHeap0 :: store where
  "exampleHeap0 =
     [0 \<mapsto> recordA\<lparr>key := None\<rparr>, 1 \<mapsto> recordB\<lparr>key := None\<rparr>, 2 \<mapsto> recordRoot]"

definition nodeA :: SerieGanttNode where
  "nodeA = Node 1 1 0 (Some 2) [Node 2 0 1 (Some 0) []]"

definition nodeB :: SerieGanttNode where
  "nodeB = Node 2 0 1 (Some 0) []"

definition exampleGantt :: GanttChart where
  "exampleGantt =
     \<lparr>width = 800, height = 600,
      padding = \<lparr>ptop = 15, pright = 15, pbottom = 15, pleft = 55\<rparr>,
      xScale = ScaleTime (Undefined, Undefined) (0, 1),
      yScale = ScaleBand [] (0, 1),
      xExtent = (Undefined, Undefined),
      xAxis = noAxis, yAxis = noAxis, xAxisLayer = noLayer, yAxisLayer = noLayer,
      rootKEY = Uuid 0,
      serieSource = 2,
      seriesNodes = [nodeA, nodeB],
      seriesNodeMap = Map.empty,
      color = ScaleBand [] (0, 1),
      ganttLayer = [],
      heap = [0 \<mapsto> recordA, 1 \<mapsto> recordB, 2 \<mapsto> recordRoot],
      next_uuid = 3,
      next_addr = 3,
      next_eid = 0\<rparr>"

definition exampleGantt0 :: GanttChart where
  "exampleGantt0 = exampleGantt\<lparr>seriesNodes := [], heap := exampleHeap0, next_uuid := 1\<rparr>"

definition exampleTree :: rtree where
  "exampleTree = RNode 2 [RNode 0 [RNode 1 []]]"

text \<open>
  The chart after A has been collapsed and before the bars are reconciled: the
  layer still holds the bars of A and B, the pass has given A a new key, and B,
  now hidden, keeps its old one.
\<close>

definition rectA :: Rect where
  "rectA = \<lparr>eid = 0, datum = nodeA, rect_class = ''A'',
     fill = (Some (Uuid 1), ScaleBand [Some (Uuid 1), Some (Uuid 2)] (0, 1)),
     pos_x = ScaleTime (Val 1609459200000, Val 1609804800000) (0, 730),
     pos_y = ScaleBand [Some (Uuid 1), Some (Uuid 2)] (0, 50)\<rparr>"

definition rectB :: Rect where
  "rectB = rectA\<lparr>eid := 1, datum := nodeB, rect_class := ''B'',
     fill := (Some (Uuid 2), ScaleBand [Some (Uuid 1), Some (Uuid 2)] (0, 1))\<rparr>"

definition exampleCollapsed :: GanttChart where
  "exampleCollapsed =
     exampleGantt\<lparr>seriesNodes := [Node 1 0 0 (Some 2) []],
       heap := [0 \<mapsto> recordA\<lparr>key := Some (Uuid 3), data := None, data' := Some [1]\<rparr>,
                1 \<mapsto> recordB, 2 \<mapsto> recordRoot],
       next_uuid := 4,
       ganttLayer := [rectA, rectB],
       next_eid := 2\<rparr>"

text \<open>
  A newly created component, and the two records A and B of a caller at the
  addresses 0 and 1.
\<close>

definition exampleCaller :: GanttChart where
  "exampleCaller =
     exampleGantt\<lparr>seriesNodes := [],
       heap := [0 \<mapsto> recordA\<lparr>key := None\<rparr>, 1 \<mapsto> recordB\<lparr>key := None\<rparr>],
       next_uuid := 1,
       next_addr := 2\<rparr>"

section \<open>Extents\<close>

text \<open>
  The three extent functions of d3 skip every value that is not proper and return
  the least and the greatest proper value, or \<open>undefined\<close> when there is none.
\<close>

lemma fold_min_Min: "fold min xs (w::'a::linorder) = Min (insert w (set xs))"
  using Min.set_eq_fold [of w xs] by simp

lemma fold_max_Max: "fold max xs (w::'a::linorder) = Max (insert w (set xs))"
  using Max.set_eq_fold [of w xs] by simp

lemma extent_step_Val: "extent_step v (Val a, Val b) =
   (case v of Val w \<Rightarrow> (Val (min w a), Val (max w b)) | _ \<Rightarrow> (Val a, Val b))"
  by (cases v) (auto simp: min_def max_def)

lemma fold_extent_Val:
  "fold extent_step vs (Val a, Val b) = (Val (fold min (proper vs) a), Val (fold max (proper vs) b))"
proof (induction vs arbitrary: a b)
  case Nil
  then show ?case by simp
next
  case (Cons v vs)
  then show ?case by (cases v) (simp_all add: extent_step_Val)
qed

lemma d3_extent_proper:
  "d3_extent vs =
     (if proper vs = [] then (Undefined, Undefined)
      else (Val (Min (set (proper vs))), Val (Max (set (proper vs)))))"
  unfolding d3_extent_def
proof (induction vs)
  case Nil
  then show ?case by simp
next
  case (Cons v vs)
  show ?case
  proof (cases v)
    case (Val w)
    then show ?thesis
      by (simp add: fold_extent_Val fold_min_Min fold_max_Max)
  qed (use Cons in simp_all)
qed

lemma min_step_Val: "min_step v (Val a) = (case v of Val w \<Rightarrow> Val (min w a) | _ \<Rightarrow> Val a)"
  by (cases v) (auto simp: min_def)

lemma max_step_Val: "max_step v (Val a) = (case v of Val w \<Rightarrow> Val (max w a) | _ \<Rightarrow> Val a)"
  by (cases v) (auto simp: max_def)

lemma fold_min_Val: "fold min_step vs (Val a) = Val (fold min (proper vs) a)"
proof (induction vs arbitrary: a)
  case (Cons v vs)
  then show ?case by (cases v) (simp_all add: min_step_Val)
qed simp

lemma fold_max_Val: "fold max_step vs (Val a) = Val (fold max (proper vs) a)"
proof (induction vs arbitrary: a)
  case (Cons v vs)
  then show ?case by (cases v) (simp_all add: max_step_Val)
qed simp

lemma d3_min_proper:
  "d3_min vs = (if proper vs = [] then Undefined else Val (Min (set (proper vs))))"
  unfolding d3_min_def
proof (induction vs)
  case (Cons v vs)
  show ?case
  proof (cases v)
    case (Val w)
    then show ?thesis by (simp add: fold_min_Val fold_min_Min)
  qed (use Cons in simp_all)
qed simp

lemma d3_max_proper:
  "d3_max vs = (if proper vs = [] then Undefined else Val (Max (set (proper vs))))"
  unfolding d3_max_def
proof (induction vs)
  case (Cons v vs)
  show ?case
  proof (cases v)
    case (Val w)
    then show ?thesis by (simp add: fold_max_Val fold_max_Max)
  qed (use Cons in simp_all)
qed simp

lemma proper_all_Val: "list_all is_Val vs \<Longrightarrow> map Val (proper vs) = vs"
proof (induction vs)
  case (Cons v vs)
  then show ?case by (cases v) simp_all
qed simp

lemma proper_nonempty: "vs \<noteq> [] \<Longrightarrow> list_all is_Val vs \<Longrightarrow> proper vs \<noteq> []"
  by (cases vs; cases "hd vs") auto

text \<open>
  C9. On an empty series the time chart computes an x extent and a y extent whose
  endpoints are both \<open>undefined\<close>, and on an empty node list the Gantt chart
  computes an x extent whose endpoints are both \<open>undefined\<close>; no error is raised,
  the extent is a value.
\<close>

theorem extent_of_empty_series:
  "xExtent (computeExtent_time (c\<lparr>series := []\<rparr>)) = (Undefined, Undefined) \<and>
   yExtent (computeExtent_time (c\<lparr>series := []\<rparr>)) = (Undefined, Undefined) \<and>
   xExtent (computeExtent_gantt (g\<lparr>seriesNodes := []\<rparr>)) = (Undefined, Undefined)"
  by (simp add: computeExtent_time_def computeExtent_gantt_def d3_extent_def d3_min_def d3_max_def)

text \<open>
  C2. For a non-empty series whose dates and prices are all proper values (valid
  Dates, numbers other than \<open>NaN\<close>), so that the proper values are all the values
  of the field, the time chart computes the x extent as the pair of the least and
  the greatest date and the y extent as the pair of the least and the greatest
  price, the first component not above the second. For a non-empty list of visible
  nodes with valid start and end Dates the Gantt chart computes the x extent as
  the pair of the least start and the greatest end.
\<close>

theorem computeExtent_extrema:
  assumes "series c \<noteq> []"
    and "list_all (\<lambda>s. is_Val (date s) \<and> is_Val (price s)) (series c)"
    and "seriesNodes g \<noteq> []"
    and "list_all (\<lambda>n. is_Val (start_of (heap g) n) \<and> is_Val (end_of (heap g) n)) (seriesNodes g)"
  shows "map Val (proper (map date (series c))) = map date (series c) \<and>
         map Val (proper (map price (series c))) = map price (series c) \<and>
         xExtent (computeExtent_time c) =
           (Val (Min (set (proper (map date (series c))))),
            Val (Max (set (proper (map date (series c)))))) \<and>
         yExtent (computeExtent_time c) =
           (Val (Min (set (proper (map price (series c))))),
            Val (Max (set (proper (map price (series c)))))) \<and>
         Min (set (proper (map date (series c)))) \<le> Max (set (proper (map date (series c)))) \<and>
         Min (set (proper (map price (series c)))) \<le> Max (set (proper (map price (series c)))) \<and>
         map Val (proper (map (start_of (heap g)) (seriesNodes g))) =
           map (start_of (heap g)) (seriesNodes g) \<and>
         map Val (proper (map (end_of (heap g)) (seriesNodes g))) =
           map (end_of (heap g)) (seriesNodes g) \<and>
         xExtent (computeExtent_gantt g) =
           (Val (Min (set (proper (map (start_of (heap g)) (seriesNodes g))))),
            Val (Max (set (proper (map (end_of (heap g)) (seriesNodes g))))))"
proof -
  have d: "list_all is_Val (map date (series c))" and p: "list_all is_Val (map price (series c))"
    using assms(2) by (simp_all add: list_all_iff)
  have s: "list_all is_Val (map (start_of (heap g)) (seriesNodes g))"
    and e: "list_all is_Val (map (end_of (heap g)) (seriesNodes g))"
    using assms(4) by (simp_all add: list_all_iff)
  have dn: "proper (map date (series c)) \<noteq> []" and pn: "proper (map price (series c)) \<noteq> []"
    using assms(1) d p by (simp_all add: proper_nonempty)
  have sn: "proper (map (start_of (heap g)) (seriesNodes g)) \<noteq> []"
    and en: "proper (map (end_of (heap g)) (seriesNodes g)) \<noteq> []"
    using assms(3) s e by (simp_all add: proper_nonempty)
  have x: "xExtent (computeExtent_time c) =
           (Val (Min (set (proper (map date (series c))))),
            Val (Max (set (proper (map date (series c))))))"
    using dn by (simp add: computeExtent_time_def d3_extent_proper)
  have y: "yExtent (computeExtent_time c) =
           (Val (Min (set (proper (map price (series c))))),
            Val (Max (set (proper (map price (series c))))))"
    using pn by (simp add: computeExtent_time_def d3_extent_proper)
  have gx: "xExtent (computeExtent_gantt g) =
           (Val (Min (set (proper (map (start_of (heap g)) (seriesNodes g))))),
            Val (Max (set (proper (map (end_of (heap g)) (seriesNodes g))))))"
    using sn en by (simp add: computeExtent_gantt_def d3_min_proper d3_max_proper)
  have o1: "Min (set (proper (map date (series c)))) \<le> Max (set (proper (map date (series c))))"
    using dn by (simp add: Min_le_iff)
  have o2: "Min (set (proper (map price (series c)))) \<le> Max (set (proper (map price (series c))))"
    using pn by (simp add: Min_le_iff)
  show ?thesis
    using x y gx o1 o2 proper_all_Val [OF d] proper_all_Val [OF p]
      proper_all_Val [OF s] proper_all_Val [OF e]
    by simp
qed

text \<open>The scenario of the time chart, and the two nodes of the Gantt scenario.\<close>

theorem computeExtent_extrema_witness:
  "xExtent (computeExtent_time exampleTime) = (Val 1577836800000, Val 1609459200000) \<and>
   yExtent (computeExtent_time exampleTime) = (Val 100, Val 200) \<and>
   xExtent (computeExtent_gantt exampleGantt) = (Val 1609459200000, Val 1609804800000)"
  using computeExtent_extrema [of exampleTime exampleGantt]
  by (simp add: exampleTime_def exampleGantt_def nodeA_def nodeB_def recordA_def recordB_def
      start_of_def end_of_def)

section \<open>Axes and the zoom gesture of the time chart\<close>

text \<open>
  C6. The zoom behaviour is configured with the scale extent \<open>[1, 4]\<close> and with
  the plot rectangle as its extent and as its translate extent, so the scale
  factor of every gesture lies between 1 and 4. The handler of a gesture sets the
  range of the y scale to the images of \<open>canvasHeight\<close> and \<open>0\<close> under the
  transform of the gesture and keeps its domain; it leaves the x scale, the
  series, the extents and the zoom configuration as they are; it computes both
  axes again from the scales and draws the axes and the line with them.
\<close>

theorem zoom_gesture:
  "scaleExtent (zoom (computeZoom c)) = (1, 4) \<and>
   extent (zoom (computeZoom c)) = ((0, 0), (canvasWidth c, canvasHeight_time c)) \<and>
   translateExtent (zoom (computeZoom c)) = ((0, 0), (canvasWidth c, canvasHeight_time c)) \<and>
   1 \<le> tk (zoom_scale (zoom (computeZoom c)) t f) \<and>
   tk (zoom_scale (zoom (computeZoom c)) t f) \<le> 4 \<and>
   yScale (zoomed tr c) = set_range (applyY tr (canvasHeight_time c), applyY tr 0) (yScale c) \<and>
   range_of (yScale (zoomed tr c)) = (applyY tr (canvasHeight_time c), applyY tr 0) \<and>
   xScale (zoomed tr c) = xScale c \<and>
   series (zoomed tr c) = series c \<and>
   xExtent (zoomed tr c) = xExtent c \<and>
   yExtent (zoomed tr c) = yExtent c \<and>
   zoom (zoomed tr c) = zoom c \<and>
   yAxis (zoomed tr c) = set_tickSize (- canvasWidth c) (axis Left (yScale (zoomed tr c))) \<and>
   xAxis (zoomed tr c) =
     set_ticks [TickCount 12, UtcFormat ''%Y/%m'']
       (set_tickSizeOuter (- canvasHeight_time c) (axis Bottom (xScale c))) \<and>
   layer_axis (xAxisLayer (zoomed tr c)) = xAxis (zoomed tr c) \<and>
   layer_axis (yAxisLayer (zoomed tr c)) = yAxis (zoomed tr c) \<and>
   hd (linesLayer (zoomed tr c)) =
     \<lparr>path_datum = series c, path_x = xScale c, path_y = yScale (zoomed tr c)\<rparr>"
  by (cases "yScale c"; cases "linesLayer c")
     (simp_all add: computeZoom_def zoom_scale_def zoomed_def render_time_def renderLine_def
      renderAxis_time_def computeAxis_time_def canvasWidth_def viewBoxWidth_def
      canvasHeight_time_def viewBoxHeight_time_def Let_def)

text \<open>
  C7, as the claim states it, fails: on the time chart of 800 by 600 pixels the
  tick lines of the x axis have the default length 6, not the canvas height 565,
  since only the outer tick size of that axis is set; and the time axis of the
  Gantt chart is generated with no tick arguments, that is with neither a target
  count nor a label format.
\<close>

theorem axis_ticks_counterexample:
  "tickSizeInner (xAxis (computeAxis_time exampleTime)) = 6 \<and>
   tickLineEnd (xAxis (computeAxis_time exampleTime)) = 6 \<and>
   canvasHeight_time exampleTime = 565 \<and>
   \<bar>tickLineEnd (xAxis (computeAxis_time exampleTime))\<bar> \<noteq> canvasHeight_time exampleTime \<and>
   tickArguments (xAxis (computeAxis_gantt exampleGantt)) = []"
  by (simp add: computeAxis_time_def computeAxis_gantt_def exampleTime_def exampleGantt_def
      tickLineEnd_def set_ticks_def set_tickSizeOuter_def set_tickSize_def axis_def
      canvasHeight_time_def viewBoxHeight_time_def)

text \<open>
  C7, amended. The time axis of the time chart is generated with the target count
  12 and the label format year/month; the time axis of the Gantt chart has no tick
  arguments. The tick lines of the y axis of the time chart and of both axes of
  the Gantt chart reach from the axis across the opposite canvas dimension: their
  inner tick size is the negated canvas width (y axes) or canvas height (x axis
  of the Gantt chart).
\<close>

theorem axis_ticks:
  "tickArguments (xAxis (computeAxis_time c)) = [TickCount 12, UtcFormat ''%Y/%m''] \<and>
   tickSizeInner (yAxis (computeAxis_time c)) = - canvasWidth c \<and>
   tickLineEnd (yAxis (computeAxis_time c)) = canvasWidth c \<and>
   tickArguments (xAxis (computeAxis_gantt g)) = [] \<and>
   tickSizeInner (xAxis (computeAxis_gantt g)) = - canvasHeight_gantt g \<and>
   tickLineEnd (xAxis (computeAxis_gantt g)) = canvasHeight_gantt g \<and>
   tickSizeInner (yAxis (computeAxis_gantt g)) = - canvasWidth g \<and>
   tickLineEnd (yAxis (computeAxis_gantt g)) = canvasWidth g"
  by (simp add: computeAxis_time_def computeAxis_gantt_def tickLineEnd_def set_ticks_def
      set_tickSizeOuter_def set_tickSize_def set_tickFormat_def axis_def canvasWidth_def
      viewBoxWidth_def canvasHeight_time_def canvasHeight_gantt_def)

section \<open>Flattening a tree of records\<close>

subsection \<open>The node tree and its pre-order\<close>

lemma those_map_Some: "those (map (\<lambda>x. Some (f x)) xs) = Some (map f xs)"
  by (induction xs) simp_all

lemma le_fold_max: "x \<in> set xs \<Longrightarrow> (x::nat) \<le> fold max xs m"
proof (induction xs arbitrary: m)
  case (Cons y ys)
  have mono: "\<And>a. a \<le> fold max ys a"
  proof -
    fix a :: nat show "a \<le> fold max ys a"
    proof (induction ys arbitrary: a)
      case (Cons z zs)
      have "a \<le> max z a" by simp
      also have "\<dots> \<le> fold max zs (max z a)" by (rule Cons)
      finally show ?case by simp
    qed simp
  qed
  show ?case
  proof (cases "x = y")
    case True
    have "y \<le> max y m" by simp
    also have "\<dots> \<le> fold max ys (max y m)" by (rule mono)
    finally show ?thesis using True by simp
  next
    case False
    then show ?thesis using Cons by simp
  qed
qed simp

lemma levels_kid: "t' \<in> set ts \<Longrightarrow> levels (RNode a ts) \<le> Suc n \<Longrightarrow> levels t' \<le> n"
  using le_fold_max [of "levels t'" "map levels ts" 0] by simp

lemma hierarchy_node_shape:
  "shape h t \<Longrightarrow> levels t \<le> n \<Longrightarrow> hierarchy_node n h data d p (raddr t) = Some (build d p t)"
proof (induction n arbitrary: t d p)
  case 0
  then show ?case by (cases t) simp
next
  case (Suc n)
  obtain a ts where t: "t = RNode a ts" by (cases t)
  from Suc.prems(1) t obtain r where r: "h a = Some r" and v: "visible r = map raddr ts"
    and sh: "list_all (shape h) ts"
    by (auto split: option.splits)
  have kids: "map (hierarchy_node n h data (Suc d) (Some a) \<circ> raddr) ts
        = map (\<lambda>t'. Some (build (Suc d) (Some a) t')) ts"
  proof (rule map_cong [OF refl])
    fix t' assume "t' \<in> set ts"
    then show "(hierarchy_node n h data (Suc d) (Some a) \<circ> raddr) t'
        = Some (build (Suc d) (Some a) t')"
      using Suc.IH [of t'] sh levels_kid [of t' ts a n] Suc.prems(2) t
      by (simp add: list_all_iff)
  qed
  have "(case data r of None \<Rightarrow> [] | Some cs \<Rightarrow> cs) = map raddr ts"
    using v by (simp add: visible_def)
  then show ?case
    using r t by (simp add: kids those_map_Some)
qed

lemma eachBefore_build:
  "map ndata (eachBefore (build d p t)) = preorder t \<and>
   map depth (eachBefore (build d p t)) = distances d t"
proof (induction t arbitrary: d p)
  case (RNode a ts)
  have 1: "map (\<lambda>t'. map ndata (eachBefore (build (Suc d) (Some a) t'))) ts = map preorder ts"
    by (rule map_cong [OF refl]) (use RNode in simp)
  have 2: "map (\<lambda>t'. map depth (eachBefore (build (Suc d) (Some a) t'))) ts
    = map (distances (Suc d)) ts"
    by (rule map_cong [OF refl]) (use RNode in simp)
  have "map ndata (eachBefore (build d p (RNode a ts)))
      = a # concat (map (\<lambda>t'. map ndata (eachBefore (build (Suc d) (Some a) t'))) ts)"
    by (simp add: map_concat comp_def)
  moreover have "map depth (eachBefore (build d p (RNode a ts)))
      = d # concat (map (\<lambda>t'. map depth (eachBefore (build (Suc d) (Some a) t'))) ts)"
    by (simp add: map_concat comp_def)
  ultimately show ?case
    by (simp only: 1 2 preorder.simps distances.simps)
qed

lemma eachBefore_hd: "eachBefore n = n # tl (eachBefore n)"
  by (cases n) simp

lemma shape_preorder_Some: "shape h t \<Longrightarrow> a \<in> set (preorder t) \<Longrightarrow> h a \<noteq> None"
proof (induction t)
  case (RNode b ts)
  then show ?case by (auto simp: list_all_iff split: option.splits)
qed

lemma raddr_in_preorder: "raddr t \<in> set (preorder t)"
  by (cases t) simp

lemma preorder_hd: "preorder t = raddr t # tl (preorder t)"
  by (cases t) simp

lemma shape_reach_in: "shape h t \<Longrightarrow> a \<in> set (preorder t) \<Longrightarrow> reach h (raddr t) a"
proof (induction t)
  case (RNode b ts)
  show ?case
  proof (cases "a = b")
    case True
    then show ?thesis by (simp add: reach_refl)
  next
    case False
    then obtain t' where t': "t' \<in> set ts" "a \<in> set (preorder t')"
      using RNode.prems(2) by auto
    obtain r where r: "h b = Some r" "visible r = map raddr ts" "list_all (shape h) ts"
      using RNode.prems(1) by (auto split: option.splits)
    have 1: "reach h (raddr t') a"
      using RNode.IH [OF t'(1)] r(3) t' by (simp add: list_all_iff)
    have 2: "reach h b (raddr t')"
      using reach_step [of h b b r "raddr t'"] reach_refl [of h b] r(1,2) t'(1) by simp
    have "reach h x a \<Longrightarrow> reach h b x \<Longrightarrow> reach h b a" for x
      by (induction rule: reach.induct) (auto intro: reach_step)
    then show ?thesis using 1 2 by simp
  qed
qed

lemma shape_kids_in:
  "shape h t \<Longrightarrow> b \<in> set (preorder t) \<Longrightarrow> h b = Some r \<Longrightarrow> c \<in> set (visible r)
    \<Longrightarrow> c \<in> set (preorder t)"
proof (induction t)
  case (RNode a ts)
  obtain r0 where r0: "h a = Some r0" "visible r0 = map raddr ts" "list_all (shape h) ts"
    using RNode.prems(1) by (auto split: option.splits)
  show ?case
  proof (cases "b = a")
    case True
    then have "c \<in> raddr ` set ts" using r0 RNode.prems(3,4) by simp
    then obtain t' where "t' \<in> set ts" "c = raddr t'" by auto
    then show ?thesis using raddr_in_preorder [of t'] by auto
  next
    case False
    then obtain t' where t': "t' \<in> set ts" "b \<in> set (preorder t')"
      using RNode.prems(2) by auto
    then have "c \<in> set (preorder t')"
      using RNode.IH [OF t'(1)] r0(3) RNode.prems(3,4) by (simp add: list_all_iff)
    then show ?thesis using t'(1) by auto
  qed
qed

lemma reach_in_shape: "reach h s a \<Longrightarrow> shape h t \<Longrightarrow> s = raddr t \<Longrightarrow> a \<in> set (preorder t)"
proof (induction rule: reach.induct)
  case (reach_refl h a)
  then show ?case by (simp add: raddr_in_preorder)
next
  case (reach_step h a b r c)
  then show ?case using shape_kids_in [of h t b r c] by simp
qed

lemma shape_reach: "shape h t \<Longrightarrow> set (preorder t) = {a. reach h (raddr t) a}"
  using shape_reach_in [of h t] reach_in_shape [of h "raddr t" _ t] by auto

subsection \<open>The effect of a pass on the store\<close>

lemma preProcess_map_frame: "\<exists>H U. preProcess_map n c = c\<lparr>heap := H, next_uuid := U\<rparr>"
proof (cases "heap c (ndata n)")
  case None
  have "c = c\<lparr>heap := heap c, next_uuid := next_uuid c\<rparr>" by simp
  then show ?thesis using None unfolding preProcess_map_def by (metis option.simps(4))
next
  case (Some r)
  then show ?thesis unfolding preProcess_map_def by auto
qed

lemma fold_preProcess_map_frame:
  "\<exists>H U. fold preProcess_map ns c = c\<lparr>heap := H, next_uuid := U\<rparr>"
proof (induction ns arbitrary: c)
  case Nil
  have "c = c\<lparr>heap := heap c, next_uuid := next_uuid c\<rparr>" by simp
  then show ?case by (metis fold_simps(1))
next
  case (Cons n ns)
  obtain H U where 1: "preProcess_map n c = c\<lparr>heap := H, next_uuid := U\<rparr>"
    using preProcess_map_frame by blast
  obtain H' U' where 2: "fold preProcess_map ns (c\<lparr>heap := H, next_uuid := U\<rparr>)
      = c\<lparr>heap := H, next_uuid := U\<rparr>\<lparr>heap := H', next_uuid := U'\<rparr>"
    using Cons [of "c\<lparr>heap := H, next_uuid := U\<rparr>"] by blast
  show ?case using 1 2 by (intro exI [of _ H'] exI [of _ U']) simp
qed

lemma preProcess_map_Some:
  "heap c (ndata n) = Some r \<Longrightarrow>
   preProcess_map n c =
     c\<lparr>heap := (heap c)(ndata n \<mapsto> processed (next_uuid c) r), next_uuid := Suc (next_uuid c)\<rparr>"
  by (simp add: preProcess_map_def processed_def)

lemma fold_preProcess_map_heap:
  assumes "distinct (map ndata ns)" and "\<forall>n\<in>set ns. heap c (ndata n) \<noteq> None"
  shows "next_uuid (fold preProcess_map ns c) = next_uuid c + length ns \<and>
         (\<forall>i<length ns. heap (fold preProcess_map ns c) (ndata (ns ! i))
            = map_option (processed (next_uuid c + i)) (heap c (ndata (ns ! i)))) \<and>
         (\<forall>b. b \<notin> ndata ` set ns \<longrightarrow> heap (fold preProcess_map ns c) b = heap c b)"
  using assms
proof (induction ns arbitrary: c)
  case Nil
  then show ?case by simp
next
  case (Cons n ns)
  obtain r where r: "heap c (ndata n) = Some r" using Cons.prems(2) by auto
  define c1 where "c1 = preProcess_map n c"
  have c1: "heap c1 = (heap c)(ndata n \<mapsto> processed (next_uuid c) r)"
    "next_uuid c1 = Suc (next_uuid c)"
    using r by (simp_all add: c1_def preProcess_map_Some)
  have d: "distinct (map ndata ns)" and nn: "ndata n \<notin> ndata ` set ns"
    using Cons.prems(1) by auto
  have ne: "\<forall>m\<in>set ns. heap c1 (ndata m) \<noteq> None"
    using Cons.prems(2) c1 by auto
  note IH = Cons.IH [OF d ne]
  have f: "fold preProcess_map (n # ns) c = fold preProcess_map ns c1"
    by (simp add: c1_def)
  have A: "next_uuid (fold preProcess_map (n # ns) c) = next_uuid c + length (n # ns)"
    using IH c1 f by simp
  have B: "heap (fold preProcess_map (n # ns) c) (ndata ((n # ns) ! i))
            = map_option (processed (next_uuid c + i)) (heap c (ndata ((n # ns) ! i)))"
    if "i < length (n # ns)" for i
  proof (cases i)
    case 0
    have "heap (fold preProcess_map ns c1) (ndata n) = heap c1 (ndata n)"
      using IH nn by blast
    then show ?thesis using 0 f c1 r by simp
  next
    case (Suc j)
    then have j: "j < length ns" using that by simp
    then have "ndata (ns ! j) \<noteq> ndata n" using nn by (metis image_eqI nth_mem)
    moreover have "heap (fold preProcess_map ns c1) (ndata (ns ! j))
        = map_option (processed (next_uuid c1 + j)) (heap c1 (ndata (ns ! j)))"
      using IH j by blast
    ultimately show ?thesis using Suc f c1 by simp
  qed
  have C: "heap (fold preProcess_map (n # ns) c) b = heap c b" if "b \<notin> ndata ` set (n # ns)" for b
  proof -
    have "heap (fold preProcess_map ns c1) b = heap c1 b" using IH that by simp
    then show ?thesis using f c1 that by simp
  qed
  show ?case using A B C by blast
qed

lemma flatten_ndata: "map ndata (flatten t) = tl (preorder t)"
  using eachBefore_build [of 0 None t] by (simp add: flatten_def map_tl)

lemma flatten_depth: "map depth (flatten t) = tl (distances 0 t)"
  using eachBefore_build [of 0 None t] by (simp add: flatten_def map_tl)

lemma eachBefore_build_hd: "eachBefore (build d p t) = build d p t # tl (eachBefore (build d p t))"
  by (rule eachBefore_hd)

lemma ndata_build: "ndata (build d p t) = raddr t"
  by (cases t) simp

lemma preProcess_rooted:
  assumes "rooted c src t" and "levels t \<le> fuel"
  shows "preProcess fuel src c = Some (flatten t, fold preProcess_map (flatten t) c)"
proof -
  have h: "hierarchy fuel (heap c) src data = Some (build 0 None t)"
    using assms hierarchy_node_shape [of "heap c" t fuel 0 None]
    by (simp add: hierarchy_def rooted_def)
  have rootk: "key_of (heap c) (build 0 None t) = Some (rootKEY c)"
    using assms(1) by (simp add: rooted_def key_of_def ndata_build split: option.splits)
  have others: "\<forall>n\<in>set (flatten t). key_of (heap c) n \<noteq> Some (rootKEY c)"
  proof
    fix n assume "n \<in> set (flatten t)"
    then have "ndata n \<in> set (tl (preorder t))"
      using flatten_ndata [of t] by (metis image_eqI set_map)
    then show "key_of (heap c) n \<noteq> Some (rootKEY c)"
      using assms(1) by (auto simp: rooted_def list_all_iff key_of_def split: option.splits)
  qed
  have "filter (\<lambda>n. key_of (heap c) n \<noteq> Some (rootKEY c)) (eachBefore (build 0 None t))
      = flatten t"
    using rootk others
    by (subst eachBefore_build_hd) (simp add: flatten_def)
  then show ?thesis
    using h by (simp add: preProcess_def Let_def)
qed

lemma fold_preProcess_map_links:
  "map_option data (heap (fold preProcess_map ns c) b) = map_option data (heap c b) \<and>
   map_option data' (heap (fold preProcess_map ns c) b) = map_option data' (heap c b) \<and>
   map_option name (heap (fold preProcess_map ns c) b) = map_option name (heap c b)"
proof (induction ns arbitrary: c)
  case (Cons n ns)
  have "map_option data (heap (preProcess_map n c) b) = map_option data (heap c b) \<and>
        map_option data' (heap (preProcess_map n c) b) = map_option data' (heap c b) \<and>
        map_option name (heap (preProcess_map n c) b) = map_option name (heap c b)"
    by (auto simp: preProcess_map_def split: option.splits)
  then show ?case using Cons [of "preProcess_map n c"] by simp
qed simp

lemma shape_cong:
  "(\<And>b. map_option data (h' b) = map_option data (h b)) \<Longrightarrow> shape h' t = shape h t"
proof (induction t)
  case (RNode a ts)
  have kids: "list_all (shape h') ts = list_all (shape h) ts"
    using RNode by (simp add: list_all_iff)
  have "map_option data (h' a) = map_option data (h a)" by (rule RNode.prems)
  then show ?case
    using kids by (cases "h a"; cases "h' a") (auto simp: visible_def)
qed

lemma is_Date_new_Date: "is_Date (new_Date v)"
  by (cases v) simp_all

lemma new_Date_is_Date: "is_Date v \<Longrightarrow> new_Date v = v"
  by (cases v) simp_all

lemma in_set_tl: "v \<in> set (tl vs) \<Longrightarrow> v \<in> set vs"
  by (cases vs) simp_all

lemma flatten_length: "length (flatten t) = length (tl (preorder t))"
  using arg_cong [OF flatten_ndata, of length t] by simp

lemma flatten_nth: "i < length (flatten t) \<Longrightarrow> ndata (flatten t ! i) = tl (preorder t) ! i"
  using nth_map [of i "flatten t" ndata] by (simp add: flatten_ndata)

lemma flatten_image: "ndata ` set (flatten t) = set (tl (preorder t))"
  using arg_cong [OF flatten_ndata, of set t] by simp

lemma flatten_mem: "n \<in> set (flatten t) \<Longrightarrow> ndata n \<in> set (tl (preorder t))"
  using flatten_image [of t] by blast

text \<open>The state that a flatten pass over a tree leaves.\<close>

lemma pass_state:
  assumes "rooted c src t"
  defines "c' \<equiv> fold preProcess_map (flatten t) c"
  shows "next_uuid c' = next_uuid c + length (flatten t)"
    and "\<And>i. i < length (flatten t) \<Longrightarrow>
           heap c' (tl (preorder t) ! i)
             = map_option (processed (next_uuid c + i)) (heap c (tl (preorder t) ! i))"
    and "\<And>b. b \<notin> set (tl (preorder t)) \<Longrightarrow> heap c' b = heap c b"
    and "heap c' src = heap c src"
    and "\<And>b. b \<in> set (tl (preorder t)) \<Longrightarrow> heap c' b \<noteq> None"
proof -
  have sh: "shape (heap c) t" and src: "raddr t = src" and d: "distinct (preorder t)"
    using assms(1) by (simp_all add: rooted_def)
  have d1: "distinct (map ndata (flatten t))"
    using d by (simp add: flatten_ndata distinct_tl)
  have ne: "\<forall>n\<in>set (flatten t). heap c (ndata n) \<noteq> None"
  proof
    fix n assume "n \<in> set (flatten t)"
    then have "ndata n \<in> set (preorder t)"
      by (rule in_set_tl [OF flatten_mem])
    then show "heap c (ndata n) \<noteq> None" using sh shape_preorder_Some by blast
  qed
  note F = fold_preProcess_map_heap [OF d1 ne, folded c'_def]
  note F1 = F [THEN conjunct1] and F2 = F [THEN conjunct2, THEN conjunct1, rule_format]
    and F3 = F [THEN conjunct2, THEN conjunct2, rule_format]
  show "next_uuid c' = next_uuid c + length (flatten t)" by (rule F1)
  show X: "heap c' (tl (preorder t) ! i)
             = map_option (processed (next_uuid c + i)) (heap c (tl (preorder t) ! i))"
    if "i < length (flatten t)" for i
  proof -
    have "heap c' (ndata (flatten t ! i))
        = map_option (processed (next_uuid c + i)) (heap c (ndata (flatten t ! i)))"
      using that by (rule F2)
    then show ?thesis by (simp only: flatten_nth [OF that])
  qed
  show Y: "heap c' b = heap c b" if "b \<notin> set (tl (preorder t))" for b
  proof -
    have "b \<notin> ndata ` set (flatten t)"
      using that by (simp add: flatten_image)
    then show ?thesis by (rule F3)
  qed
  have "distinct (raddr t # tl (preorder t))"
    using d by (simp only: preorder_hd [symmetric])
  then have "src \<notin> set (tl (preorder t))"
    using src by simp
  then show "heap c' src = heap c src" by (rule Y)
  show "heap c' b \<noteq> None" if b: "b \<in> set (tl (preorder t))" for b
  proof -
    obtain i where i: "i < length (tl (preorder t))" "tl (preorder t) ! i = b"
      using b unfolding in_set_conv_nth by blast
    have "b \<in> set (preorder t)" using b by (rule in_set_tl)
    then have "heap c b \<noteq> None" using sh shape_preorder_Some by blast
    moreover have "heap c' b = map_option (processed (next_uuid c + i)) (heap c b)"
      using X [of i] i by (simp add: flatten_length)
    ultimately show ?thesis by simp
  qed
qed

subsection \<open>The flattened list\<close>

lemmas example_defs = exampleGantt0_def exampleGantt_def exampleHeap0_def exampleTree_def
  recordA_def recordB_def recordRoot_def nodeA_def nodeB_def

text \<open>
  C1, as the claim states it, fails in its last part: for the root that wraps the
  record A (address 0) with the one child B (address 1) the pass emits A and B,
  but with the depths 1 and 2, not 0 and 1, because the root node that
  \<open>d3.hierarchy\<close> creates for the synthetic root has depth 0.
\<close>

theorem flatten_depths_counterexample:
  "map_option (map ndata \<circ> fst) (preProcess 3 2 exampleGantt0) = Some [0, 1] \<and>
   map_option (map depth \<circ> fst) (preProcess 3 2 exampleGantt0) = Some [1, 2] \<and>
   map_option (map depth \<circ> fst) (preProcess 3 2 exampleGantt0) \<noteq> Some [0, 1]"
  by (simp add: preProcess_def hierarchy_def numeral_3_eq_3 example_defs key_of_def
      computeHeight_def Let_def)

text \<open>
  C1, amended. For a tree of records that hangs at the synthetic root through the
  visible child pointers, in which no record occurs twice and only the root
  carries the reserved key, a flatten pass with enough fuel returns; the records
  of the emitted nodes are the records of the tree in pre-order without the root,
  each exactly once; they are the records reachable from the root other than the
  root itself; and the depth of each node is the distance of its record from the
  root. For the root wrapping A with the one child B the result is A, B with the
  depths 1 and 2, as the example after the theorem shows.
\<close>

theorem flatten_preorder:
  assumes "rooted c src t" and "levels t \<le> fuel"
  shows "\<exists>nodes c'. preProcess fuel src c = Some (nodes, c') \<and>
           map ndata nodes = tl (preorder t) \<and>
           distinct (map ndata nodes) \<and>
           set (map ndata nodes) = {a. reach (heap c) src a} - {src} \<and>
           map depth nodes = tl (distances 0 t)"
proof -
  have sh: "shape (heap c) t" and src: "raddr t = src" and d: "distinct (preorder t)"
    using assms(1) by (simp_all add: rooted_def)
  have 1: "distinct (tl (preorder t))" using d by (simp add: distinct_tl)
  have "set (preorder t) = insert src (set (tl (preorder t)))" "src \<notin> set (tl (preorder t))"
    using preorder_hd [of t] d src by (metis list.simps(15), metis distinct.simps(2))
  then have 2: "set (tl (preorder t)) = {a. reach (heap c) src a} - {src}"
    using shape_reach [OF sh] src by auto
  have 3: "set (map ndata (flatten t)) = {a. reach (heap c) src a} - {src}"
    using 2 by (simp only: flatten_ndata)
  have 4: "distinct (map ndata (flatten t))"
    using 1 by (simp only: flatten_ndata)
  show ?thesis
    using preProcess_rooted [OF assms] 3 4 flatten_ndata [of t] flatten_depth [of t]
    by blast
qed

theorem flatten_preorder_witness:
  "map_option (map ndata \<circ> fst) (preProcess 3 2 exampleGantt0) = Some [0, 1] \<and>
   map_option (map depth \<circ> fst) (preProcess 3 2 exampleGantt0) = Some [1, 2] \<and>
   preorder exampleTree = [2, 0, 1] \<and> distances 0 exampleTree = [0, 1, 2]"
  using flatten_preorder [of exampleGantt0 2 exampleTree 3]
  by (auto simp add: rooted_def example_defs visible_def)

text \<open>
  C4. A flatten pass gives every emitted record a uuid drawn during the pass, in
  the order of the list; the keys after the pass are therefore pairwise distinct,
  none of them is the reserved key of the root, and each differs from every key
  that is older than the pass, in particular from the key the record had before
  (the keys of all earlier passes are older, since the generator never repeats).
\<close>

theorem preProcess_keys:
  assumes "rooted c src t" and "levels t \<le> fuel" and "older (next_uuid c) (Some (rootKEY c))"
  shows "\<exists>nodes c'. preProcess fuel src c = Some (nodes, c') \<and>
           map (key_of (heap c')) nodes
             = map (\<lambda>i. Some (Uuid i)) [next_uuid c ..< next_uuid c + length nodes] \<and>
           next_uuid c' = next_uuid c + length nodes \<and>
           distinct (map (key_of (heap c')) nodes) \<and>
           rootKEY c' = rootKEY c \<and>
           Some (rootKEY c) \<notin> set (map (key_of (heap c')) nodes) \<and>
           (\<forall>n\<in>set nodes. \<forall>k. older (next_uuid c) k \<longrightarrow> key_of (heap c') n \<noteq> k) \<and>
           (\<forall>n\<in>set nodes. older (next_uuid c) (key_of (heap c) n)
              \<longrightarrow> key_of (heap c') n \<noteq> key_of (heap c) n)"
proof -
  define c' where "c' = fold preProcess_map (flatten t) c"
  define u where "u = next_uuid c"
  note P = pass_state [OF assms(1), folded c'_def]
  note l = flatten_length [of t]
  have key: "key_of (heap c') (flatten t ! i) = Some (Uuid (u + i))" if "i < length (flatten t)" for i
  proof -
    note n = flatten_nth [OF that]
    have "tl (preorder t) ! i \<in> set (tl (preorder t))" using that l by simp
    then have "heap c' (tl (preorder t) ! i) \<noteq> None" by (rule P(5))
    then show ?thesis
      using P(2) [OF that] n by (auto simp: key_of_def processed_def u_def)
  qed
  have keys: "map (key_of (heap c')) (flatten t)
      = map (\<lambda>i. Some (Uuid i)) [u ..< u + length (flatten t)]"
    by (rule nth_equalityI) (simp_all add: key)
  have dist: "distinct (map (\<lambda>i. Some (Uuid i)) [u ..< u + length (flatten t)])"
    by (simp add: distinct_map inj_on_def)
  have new: "\<not> older u (key_of (heap c') n)" if n: "n \<in> set (flatten t)" for n
  proof -
    obtain i where "i < length (flatten t)" "flatten t ! i = n"
      using n unfolding in_set_conv_nth by blast
    then show ?thesis using key [of i] by auto
  qed
  have frame: "rootKEY c' = rootKEY c"
  proof -
    obtain H U where "c' = c\<lparr>heap := H, next_uuid := U\<rparr>"
      using fold_preProcess_map_frame [of "flatten t" c] unfolding c'_def by blast
    then show ?thesis by simp
  qed
  have new_all: "\<forall>n\<in>set (flatten t). \<forall>k. older (next_uuid c) k \<longrightarrow> key_of (heap c') n \<noteq> k"
    using new unfolding u_def by blast
  have root: "Some (rootKEY c) \<notin> set (map (key_of (heap c')) (flatten t))"
  proof
    assume "Some (rootKEY c) \<in> set (map (key_of (heap c')) (flatten t))"
    then obtain n where "n \<in> set (flatten t)" "key_of (heap c') n = Some (rootKEY c)"
      by auto
    then show False using new_all assms(3) by blast
  qed
  have changed: "\<forall>n\<in>set (flatten t). older (next_uuid c) (key_of (heap c) n)
      \<longrightarrow> key_of (heap c') n \<noteq> key_of (heap c) n"
    using new_all by blast
  have dist': "distinct (map (key_of (heap c')) (flatten t))"
    using dist by (simp only: keys)
  have keys': "map (key_of (heap c')) (flatten t)
      = map (\<lambda>i. Some (Uuid i)) [next_uuid c ..< next_uuid c + length (flatten t)]"
    using keys unfolding u_def .
  have run: "preProcess fuel src c = Some (flatten t, c')"
    using preProcess_rooted [OF assms(1,2)] unfolding c'_def .
  show ?thesis
    by (intro exI [of _ "flatten t"] exI [of _ c'] conjI run keys' P(1) dist' frame root
        new_all changed)
qed

theorem preProcess_keys_witness:
  "map_option (\<lambda>r. map (key_of (heap (snd r))) (fst r)) (preProcess 3 2 exampleGantt0)
     = Some [Some (Uuid 1), Some (Uuid 2)] \<and>
   map_option (\<lambda>r. map (key_of (heap exampleGantt0)) (fst r)) (preProcess 3 2 exampleGantt0)
     = Some [None, None] \<and>
   rootKEY exampleGantt0 = Uuid 0 \<and> next_uuid exampleGantt0 = 1"
  using preProcess_keys [of exampleGantt0 2 exampleTree 3]
  by (simp add: preProcess_def hierarchy_def numeral_3_eq_3 example_defs key_of_def
      computeHeight_def Let_def preProcess_map_def rooted_def visible_def)

section \<open>Clicking a bar\<close>

subsection \<open>Pruned trees\<close>

lemma go_gantt_frame:
  "heap (go_gantt c) = heap c \<and> seriesNodes (go_gantt c) = seriesNodes c \<and>
   seriesNodeMap (go_gantt c) = seriesNodeMap c \<and>
   rootKEY (go_gantt c) = rootKEY c \<and> serieSource (go_gantt c) = serieSource c \<and>
   next_uuid (go_gantt c) = next_uuid c \<and> next_addr (go_gantt c) = next_addr c"
  by (simp add: go_gantt_def render_gantt_def renderGantt_def renderAxis_gantt_def
      compute_gantt_def computeColor_def computeAxis_gantt_def computeScale_gantt_def
      computeExtent_gantt_def Let_def split: prod.splits)

lemma shape_visible_cong:
  "(\<And>b. map_option visible (h' b) = map_option visible (h b)) \<Longrightarrow> shape h' t = shape h t"
proof (induction t)
  case (RNode a ts)
  have kids: "list_all (shape h') ts = list_all (shape h) ts"
    using RNode by (simp add: list_all_iff)
  have "map_option visible (h' a) = map_option visible (h a)" by (rule RNode.prems)
  then show ?case
    using kids by (cases "h a"; cases "h' a") auto
qed

lemma raddr_prune: "raddr (prune a t) = raddr t"
  by (cases t) simp

lemma shape_prune:
  assumes "shape h t" and "h' a = Some r'" and "visible r' = []"
    and "\<And>b. b \<noteq> a \<Longrightarrow> h' b = h b"
  shows "shape h' (prune a t)"
  using assms(1)
proof (induction t)
  case (RNode b ts)
  show ?case
  proof (cases "a = b")
    case True
    then show ?thesis using assms(2,3) by simp
  next
    case False
    obtain r where r: "h b = Some r" "visible r = map raddr ts" "list_all (shape h) ts"
      using RNode.prems by (auto split: option.splits)
    have "list_all (shape h') (map (prune a) ts)"
      using RNode.IH r(3) by (simp add: list_all_iff)
    moreover have "h' b = Some r" using False r(1) assms(4) [of b] by simp
    moreover have "map raddr (map (prune a) ts) = map raddr ts"
      by (simp add: raddr_prune)
    ultimately show ?thesis using False r(2) by simp
  qed
qed

lemma subseq_concat_map:
  "(\<And>v. v \<in> set vs \<Longrightarrow> subseq (f v) (g v)) \<Longrightarrow> subseq (concat (map f vs)) (concat (map g vs))"
proof (induction vs)
  case (Cons v vs)
  have "subseq (f v) (g v)" using Cons.prems by simp
  moreover have "subseq (concat (map f vs)) (concat (map g vs))"
    using Cons by simp
  ultimately show ?case by (simp add: list_emb_append_mono)
qed simp

lemma prune_subseq: "subseq (preorder (prune a t)) (preorder t)"
proof (induction t)
  case (RNode b ts)
  have "subseq (concat (map (\<lambda>t'. preorder (prune a t')) ts)) (concat (map preorder ts))"
    by (rule subseq_concat_map) (rule RNode)
  then show ?case by (simp add: comp_def)
qed

lemma prune_tl_subseq: "subseq (tl (preorder (prune a t))) (tl (preorder t))"
  using prune_subseq [of a t] by (cases t) (simp split: if_splits)

lemma subseq_distinct: "subseq vs ws \<Longrightarrow> distinct ws \<Longrightarrow> distinct vs"
  by (auto simp: subseq_conv_nths)

lemma subseq_set: "subseq vs ws \<Longrightarrow> set vs \<subseteq> set ws"
  by (auto simp: subseq_conv_nths dest: in_set_nthsD)

lemma fold_max_mono:
  "(\<And>v. v \<in> set vs \<Longrightarrow> f v \<le> g v) \<Longrightarrow> m \<le> m'
    \<Longrightarrow> fold max (map f vs) (m::nat) \<le> fold max (map g vs) m'"
proof (induction vs arbitrary: m m')
  case (Cons v vs)
  have "f v \<le> g v" using Cons.prems(1) by simp
  then have "max (f v) m \<le> max (g v) m'" using Cons.prems(2) by (rule max.mono)
  then show ?case using Cons by simp
qed simp

lemma levels_prune: "levels (prune a t) \<le> levels t"
proof (induction t)
  case (RNode b ts)
  have "fold max (map (\<lambda>t'. levels (prune a t')) ts) 0 \<le> fold max (map levels ts) 0"
    by (rule fold_max_mono) (simp_all add: RNode)
  then show ?case by (simp add: comp_def)
qed

lemma prune_keeps: "a \<in> set (preorder t) \<Longrightarrow> a \<in> set (preorder (prune a t))"
proof (induction t)
  case (RNode b ts)
  then show ?case by (cases "a = b") auto
qed

lemma prune_at: "a \<in> set (tl (preorder t)) \<Longrightarrow> distinct (preorder t)
    \<Longrightarrow> a \<in> set (tl (preorder (prune a t)))"
proof -
  assume a: "a \<in> set (tl (preorder t))" and d: "distinct (preorder t)"
  obtain b ts where t: "t = RNode b ts" by (cases t)
  have "a \<noteq> b" using a d t by auto
  moreover have "a \<in> set (preorder (prune a t))"
    using a t prune_keeps [of a t] by simp
  ultimately show ?thesis using t by simp
qed

subsection \<open>The state after a pass, and a click on a tree\<close>

lemma fold_preProcess_map_fields:
  "rootKEY (fold preProcess_map ns c) = rootKEY c \<and>
   serieSource (fold preProcess_map ns c) = serieSource c \<and>
   seriesNodes (fold preProcess_map ns c) = seriesNodes c \<and>
   ganttLayer (fold preProcess_map ns c) = ganttLayer c \<and>
   next_addr (fold preProcess_map ns c) = next_addr c"
proof -
  obtain H U where "fold preProcess_map ns c = c\<lparr>heap := H, next_uuid := U\<rparr>"
    using fold_preProcess_map_frame [of ns c] by blast
  then show ?thesis by simp
qed

lemma pass_fields:
  assumes "rooted c src t"
  defines "c' \<equiv> fold preProcess_map (flatten t) c"
  shows "map_option start (heap c' b)
           = map_option (\<lambda>r. if b \<in> set (tl (preorder t)) then new_Date (start r) else start r)
               (heap c b)"
    and "map_option end' (heap c' b)
           = map_option (\<lambda>r. if b \<in> set (tl (preorder t)) then new_Date (end' r) else end' r)
               (heap c b)"
    and "b \<in> set (tl (preorder t)) \<Longrightarrow>
           \<exists>i. map_option key (heap c' b) = Some (Some (Uuid (next_uuid c + i)))"
    and "b \<notin> set (tl (preorder t)) \<Longrightarrow> heap c' b = heap c b"
proof -
  note P = pass_state [OF assms(1), folded c'_def]
  have in_case: "\<exists>i. heap c' b = map_option (processed (next_uuid c + i)) (heap c b)"
    if b: "b \<in> set (tl (preorder t))"
  proof -
    obtain i where i: "i < length (tl (preorder t))" "tl (preorder t) ! i = b"
      using b unfolding in_set_conv_nth by blast
    have "heap c' (tl (preorder t) ! i)
        = map_option (processed (next_uuid c + i)) (heap c (tl (preorder t) ! i))"
      using i(1) by (intro P(2)) (simp add: flatten_length)
    then show ?thesis using i(2) by blast
  qed
  show "map_option start (heap c' b)
           = map_option (\<lambda>r. if b \<in> set (tl (preorder t)) then new_Date (start r) else start r)
               (heap c b)"
  proof (cases "b \<in> set (tl (preorder t))")
    case True
    then show ?thesis using in_case by (auto simp: processed_def option.map_comp comp_def)
  next
    case False
    then show ?thesis using P(3) [of b] by simp
  qed
  show "map_option end' (heap c' b)
           = map_option (\<lambda>r. if b \<in> set (tl (preorder t)) then new_Date (end' r) else end' r)
               (heap c b)"
  proof (cases "b \<in> set (tl (preorder t))")
    case True
    then show ?thesis using in_case by (auto simp: processed_def option.map_comp comp_def)
  next
    case False
    then show ?thesis using P(3) [of b] by simp
  qed
  show "\<exists>i. map_option key (heap c' b) = Some (Some (Uuid (next_uuid c + i)))"
    if b: "b \<in> set (tl (preorder t))"
  proof -
    obtain i where "heap c' b = map_option (processed (next_uuid c + i)) (heap c b)"
      using in_case [OF b] by blast
    moreover have "heap c' b \<noteq> None" using b by (rule P(5))
    ultimately show ?thesis by (auto simp: processed_def)
  qed
  show "heap c' b = heap c b" if "b \<notin> set (tl (preorder t))"
    using that by (rule P(3))
qed

lemma older_mono: "older m k \<Longrightarrow> m \<le> n \<Longrightarrow> older n k"
  by (cases "(m, k)" rule: older.cases) auto

lemma src_not_in_tl: "rooted c src t \<Longrightarrow> src \<notin> set (tl (preorder t))"
proof -
  assume r: "rooted c src t"
  then have "distinct (preorder t)" by (simp add: rooted_def)
  then have "distinct (raddr t # tl (preorder t))"
    by (simp only: preorder_hd [symmetric])
  then show ?thesis using r by (simp add: rooted_def)
qed

lemma pass_flattened:
  assumes "rooted c1 src t" and "older (next_uuid c1) (Some (rootKEY c1))"
    and "heap c2 = heap (fold preProcess_map (flatten t) c1)"
    and "seriesNodes c2 = flatten t"
    and "next_uuid c2 = next_uuid c1 + length (flatten t)"
    and "rootKEY c2 = rootKEY c1" and "serieSource c2 = src"
  shows "flattened c2 t"
proof -
  define c' where "c' = fold preProcess_map (flatten t) c1"
  note P = pass_state [OF assms(1), folded c'_def]
  note Q = pass_fields [OF assms(1), folded c'_def]
  have h: "heap c2 = heap c'" using assms(3) by (simp add: c'_def)
  have sh: "shape (heap c1) t" and src: "raddr t = src" and d: "distinct (preorder t)"
    and rk: "case heap c1 src of None \<Rightarrow> False | Some r \<Rightarrow> key r = Some (rootKEY c1)"
    using assms(1) by (simp_all add: rooted_def)
  have "map_option visible (heap c' b) = map_option visible (heap c1 b)" for b
  proof -
    have "map_option data (heap c' b) = map_option data (heap c1 b)"
      using fold_preProcess_map_links [of "flatten t" c1 b] by (simp add: c'_def)
    then show ?thesis by (cases "heap c' b"; cases "heap c1 b") (auto simp: visible_def)
  qed
  then have sh': "shape (heap c2) t"
    using sh shape_visible_cong [of "heap c'" "heap c1" t] h by simp
  have rk': "case heap c2 src of None \<Rightarrow> False | Some r \<Rightarrow> key r = Some (rootKEY c2)"
    using rk P(4) h assms(6) by (simp split: option.splits)
  have each: "case heap c2 b of None \<Rightarrow> False
      | Some r \<Rightarrow> key r \<noteq> Some (rootKEY c2) \<and> is_Date (start r) \<and> is_Date (end' r)"
    if b: "b \<in> set (tl (preorder t))" for b
  proof -
    obtain r where r: "heap c' b = Some r" using P(5) [OF b] by auto
    obtain i where "map_option key (heap c' b) = Some (Some (Uuid (next_uuid c1 + i)))"
      using Q(3) [OF b] by blast
    then have k: "key r = Some (Uuid (next_uuid c1 + i))" using r by simp
    have "key r \<noteq> Some (rootKEY c1)"
    proof
      assume "key r = Some (rootKEY c1)"
      then have "older (next_uuid c1) (Some (Uuid (next_uuid c1 + i)))"
        using k assms(2) by simp
      then show False by simp
    qed
    moreover have "is_Date (start r)"
      using Q(1) [of b] r b by (cases "heap c1 b") (auto simp: is_Date_new_Date)
    moreover have "is_Date (end' r)"
      using Q(2) [of b] r b by (cases "heap c1 b") (auto simp: is_Date_new_Date)
    ultimately show ?thesis using r h assms(6) by simp
  qed
  have keys: "list_all (\<lambda>a. case heap c2 a of None \<Rightarrow> False
      | Some r \<Rightarrow> key r \<noteq> Some (rootKEY c2)) (tl (preorder t))"
    unfolding list_all_iff
  proof
    fix a assume "a \<in> set (tl (preorder t))"
    from each [OF this] show "case heap c2 a of None \<Rightarrow> False
      | Some r \<Rightarrow> key r \<noteq> Some (rootKEY c2)"
      by (cases "heap c2 a") auto
  qed
  have dates: "list_all (\<lambda>a. case heap c2 a of None \<Rightarrow> False
      | Some r \<Rightarrow> is_Date (start r) \<and> is_Date (end' r)) (tl (preorder t))"
    unfolding list_all_iff
  proof
    fix a assume "a \<in> set (tl (preorder t))"
    from each [OF this] show "case heap c2 a of None \<Rightarrow> False
      | Some r \<Rightarrow> is_Date (start r) \<and> is_Date (end' r)"
      by (cases "heap c2 a") auto
  qed
  have old: "older (next_uuid c2) (Some (rootKEY c2))"
    using older_mono [OF assms(2), of "next_uuid c2"] assms(5,6) by simp
  have "rooted c2 (serieSource c2) t"
    unfolding rooted_def using src sh' d rk' keys assms(7) by simp
  then show ?thesis
    unfolding flattened_def using assms(4) old dates by (simp add: flatten_ndata)
qed

lemma click_run:
  assumes "heap c (ndata n) = Some r"
    and "rooted (c\<lparr>heap := (heap c)(ndata n \<mapsto> toggle r)\<rparr>) (serieSource c) t1"
    and "levels t1 \<le> fuel"
  shows "\<exists>c'. click fuel n c = Some c' \<and> seriesNodes c' = flatten t1 \<and>
           heap c' = heap (fold preProcess_map (flatten t1)
                       (c\<lparr>heap := (heap c)(ndata n \<mapsto> toggle r)\<rparr>)) \<and>
           next_uuid c' = next_uuid c + length (flatten t1) \<and>
           rootKEY c' = rootKEY c \<and> serieSource c' = serieSource c"
proof -
  define c1 where "c1 = c\<lparr>heap := (heap c)(ndata n \<mapsto> toggle r)\<rparr>"
  define c2 where "c2 = fold preProcess_map (flatten t1) c1"
  have s: "serieSource c1 = serieSource c" by (simp add: c1_def)
  have run: "preProcess fuel (serieSource c1) c1 = Some (flatten t1, c2)"
    using preProcess_rooted [of c1 "serieSource c" t1 fuel] assms(2,3)
    by (simp add: c1_def c2_def)
  have cl: "click fuel n c
      = Some (go_gantt (c2\<lparr>seriesNodes := flatten t1, seriesNodeMap := nodeMap (heap c2) (flatten t1)\<rparr>))"
    using assms(1) run by (simp add: click_def Let_def c1_def [symmetric])
  have f: "rootKEY c2 = rootKEY c" "serieSource c2 = serieSource c"
    using fold_preProcess_map_fields [of "flatten t1" c1] by (simp_all add: c2_def c1_def)
  have u: "next_uuid c2 = next_uuid c + length (flatten t1)"
    using pass_state(1) [OF assms(2)] by (simp add: c2_def c1_def)
  show ?thesis
    using cl f u by (simp add: go_gantt_frame c2_def c1_def)
qed

lemma toggle_fields:
  "name (toggle r) = name r \<and> start (toggle r) = start r \<and> end' (toggle r) = end' r \<and>
   key (toggle r) = key r"
  by (simp add: toggle_def)

lemma toggle_leaf:
  "visible r = [] \<Longrightarrow> hidden r = [] \<Longrightarrow> visible (toggle r) = [] \<and> hidden (toggle r) = []"
  by (auto simp: toggle_def visible_def hidden_def split: option.splits)

lemma toggle_collapse:
  "visible r \<noteq> [] \<Longrightarrow> visible (toggle r) = [] \<and> hidden (toggle r) = visible r \<and>
     data (toggle r) = None"
  by (auto simp: toggle_def visible_def hidden_def split: option.splits)

lemma toggle_expand:
  "data r = None \<Longrightarrow> visible (toggle r) = hidden r \<and> hidden (toggle r) = []"
  by (auto simp: toggle_def visible_def hidden_def split: option.splits)

lemma processed_fields:
  "name (processed u r) = name r \<and> data (processed u r) = data r \<and>
   data' (processed u r) = data' r \<and> visible (processed u r) = visible r \<and>
   hidden (processed u r) = hidden r \<and> key (processed u r) = Some (Uuid u)"
  by (simp add: processed_def visible_def hidden_def)

lemma pass_record:
  assumes "rooted c src t" and "b \<in> set (tl (preorder t))"
  shows "\<exists>i. heap (fold preProcess_map (flatten t) c) b
            = map_option (processed (next_uuid c + i)) (heap c b)"
proof -
  obtain i where i: "i < length (tl (preorder t))" "tl (preorder t) ! i = b"
    using assms(2) unfolding in_set_conv_nth by blast
  have "heap (fold preProcess_map (flatten t) c) (tl (preorder t) ! i)
      = map_option (processed (next_uuid c + i)) (heap c (tl (preorder t) ! i))"
    using i(1) by (intro pass_state(2) [OF assms(1)]) (simp add: flatten_length)
  then show ?thesis using i(2) by blast
qed

lemma pass_links:
  "map_option visible (heap (fold preProcess_map ns c) b) = map_option visible (heap c b) \<and>
   map_option hidden (heap (fold preProcess_map ns c) b) = map_option hidden (heap c b) \<and>
   map_option name (heap (fold preProcess_map ns c) b) = map_option name (heap c b)"
proof -
  note L = fold_preProcess_map_links [of ns c b]
  show ?thesis
    using L by (cases "heap (fold preProcess_map ns c) b"; cases "heap c b")
      (auto simp: visible_def hidden_def)
qed

lemma pass_same_dates:
  assumes "rooted c src t"
    and "\<And>r. b \<in> set (tl (preorder t)) \<Longrightarrow> heap c b = Some r
          \<Longrightarrow> is_Date (start r) \<and> is_Date (end' r)"
  shows "map_option start (heap (fold preProcess_map (flatten t) c) b) = map_option start (heap c b) \<and>
         map_option end' (heap (fold preProcess_map (flatten t) c) b) = map_option end' (heap c b)"
proof (cases "heap c b")
  case None
  then show ?thesis using pass_fields(1,2) [OF assms(1), of b] by simp
next
  case (Some r)
  then show ?thesis
    using pass_fields(1,2) [OF assms(1), of b] assms(2) [of r]
    by (auto simp: new_Date_is_Date)
qed

lemma flattened_dates:
  "flattened c t \<Longrightarrow> b \<in> set (tl (preorder t)) \<Longrightarrow> heap c b = Some r
    \<Longrightarrow> is_Date (start r) \<and> is_Date (end' r)"
  by (auto simp: flattened_def list_all_iff split: option.splits)

lemma rooted_key:
  "rooted c src t \<Longrightarrow> b \<in> set (tl (preorder t)) \<Longrightarrow> heap c b = Some r
    \<Longrightarrow> key r \<noteq> Some (rootKEY c)"
  by (auto simp: rooted_def list_all_iff split: option.splits)

lemma rootedI:
  assumes "raddr t = src" and "shape (heap c) t" and "distinct (preorder t)"
    and "\<exists>r. heap c src = Some r \<and> key r = Some (rootKEY c)"
    and "\<And>b. b \<in> set (tl (preorder t)) \<Longrightarrow> \<exists>r. heap c b = Some r \<and> key r \<noteq> Some (rootKEY c)"
  shows "rooted c src t"
proof -
  have "list_all (\<lambda>a. case heap c a of None \<Rightarrow> False | Some r \<Rightarrow> key r \<noteq> Some (rootKEY c))
      (tl (preorder t))"
    unfolding list_all_iff
  proof
    fix a assume "a \<in> set (tl (preorder t))"
    from assms(5) [OF this]
    show "case heap c a of None \<Rightarrow> False | Some r \<Rightarrow> key r \<noteq> Some (rootKEY c)" by auto
  qed
  then show ?thesis
    unfolding rooted_def using assms(1-4) by auto
qed

lemma rootedD:
  assumes "rooted c src t"
  shows "raddr t = src" and "shape (heap c) t" and "distinct (preorder t)"
    and "\<exists>r. heap c src = Some r \<and> key r = Some (rootKEY c)"
    and "\<And>b. b \<in> set (tl (preorder t)) \<Longrightarrow> \<exists>r. heap c b = Some r \<and> key r \<noteq> Some (rootKEY c)"
proof -
  show "raddr t = src" "shape (heap c) t" "distinct (preorder t)"
    using assms by (simp_all add: rooted_def)
  show "\<exists>r. heap c src = Some r \<and> key r = Some (rootKEY c)"
    using assms by (cases "heap c src") (simp_all add: rooted_def)
  show "\<exists>r. heap c b = Some r \<and> key r \<noteq> Some (rootKEY c)" if "b \<in> set (tl (preorder t))" for b
    using assms that by (cases "heap c b") (auto simp: rooted_def list_all_iff)
qed

subsection \<open>A click on a record without children\<close>

text \<open>
  C8. In a flattened state, a click on a bar whose record has neither visible nor
  hidden children returns; afterwards the node list holds the same records in the
  same order, every record of the store has the name, start, end, visible
  children and hidden children it had before, the clicked record still has no
  visible and no hidden children, and the state is flattened again over the same
  tree.
\<close>

theorem click_leaf:
  assumes "flattened c t" and "levels t \<le> fuel"
    and "ndata n \<in> set (map ndata (seriesNodes c))"
    and "heap c (ndata n) = Some r" and "visible r = []" and "hidden r = []"
  shows "\<exists>c'. click fuel n c = Some c' \<and>
           map ndata (seriesNodes c') = map ndata (seriesNodes c) \<and>
           (\<forall>b. map_option name (heap c' b) = map_option name (heap c b) \<and>
                map_option start (heap c' b) = map_option start (heap c b) \<and>
                map_option end' (heap c' b) = map_option end' (heap c b) \<and>
                map_option visible (heap c' b) = map_option visible (heap c b) \<and>
                map_option hidden (heap c' b) = map_option hidden (heap c b)) \<and>
           map_option visible (heap c' (ndata n)) = Some [] \<and>
           map_option hidden (heap c' (ndata n)) = Some [] \<and>
           flattened c' t"
proof -
  define a where "a = ndata n"
  define src where "src = serieSource c"
  define c1 where "c1 = c\<lparr>heap := (heap c)(a \<mapsto> toggle r)\<rparr>"
  have R: "rooted c src t" and sn: "map ndata (seriesNodes c) = tl (preorder t)"
    and old: "older (next_uuid c) (Some (rootKEY c))"
    using assms(1) by (simp_all add: flattened_def src_def)
  have r: "heap c a = Some r" using assms(4) by (simp add: a_def)
  note T = toggle_leaf [OF assms(5,6)] and TF = toggle_fields [of r]
  have same1: "map_option name (heap c1 b) = map_option name (heap c b) \<and>
      map_option start (heap c1 b) = map_option start (heap c b) \<and>
      map_option end' (heap c1 b) = map_option end' (heap c b) \<and>
      map_option key (heap c1 b) = map_option key (heap c b) \<and>
      map_option visible (heap c1 b) = map_option visible (heap c b) \<and>
      map_option hidden (heap c1 b) = map_option hidden (heap c b)" for b
    using r T TF assms(5,6) by (simp add: c1_def)
  have R1: "rooted c1 src t"
  proof (rule rootedI)
    show "raddr t = src" "distinct (preorder t)" using rootedD(1,3) [OF R] by simp_all
    show "shape (heap c1) t"
      using shape_visible_cong [of "heap c1" "heap c" t] same1 rootedD(2) [OF R] by simp
    show "\<exists>r. heap c1 src = Some r \<and> key r = Some (rootKEY c1)"
      using rootedD(4) [OF R] r TF by (auto simp: c1_def)
    show "\<exists>r. heap c1 b = Some r \<and> key r \<noteq> Some (rootKEY c1)"
      if "b \<in> set (tl (preorder t))" for b
      using rootedD(5) [OF R that] r TF by (auto simp: c1_def)
  qed
  have R1': "rooted (c\<lparr>heap := (heap c)(ndata n \<mapsto> toggle r)\<rparr>) (serieSource c) t"
    using R1 by (simp add: c1_def a_def src_def)
  obtain c' where c': "click fuel n c = Some c'" "seriesNodes c' = flatten t"
    "heap c' = heap (fold preProcess_map (flatten t) c1)"
    "next_uuid c' = next_uuid c + length (flatten t)"
    "rootKEY c' = rootKEY c" "serieSource c' = serieSource c"
    using click_run [OF assms(4) R1' assms(2)] by (auto simp: c1_def a_def)
  have F: "flattened c' t"
    by (rule pass_flattened [OF R1, of c'])
       (use old c' in \<open>simp_all add: c1_def src_def\<close>)
  have dates1: "is_Date (start r') \<and> is_Date (end' r')"
    if "b \<in> set (tl (preorder t))" "heap c1 b = Some r'" for b r'
  proof (cases "b = a")
    case True
    then show ?thesis
      using that flattened_dates [OF assms(1) that(1) r [folded True]] TF
      by (simp add: c1_def)
  next
    case False
    then show ?thesis
      using that flattened_dates [OF assms(1) that(1), of r'] by (simp add: c1_def)
  qed
  have same2: "map_option name (heap c' b) = map_option name (heap c b) \<and>
      map_option start (heap c' b) = map_option start (heap c b) \<and>
      map_option end' (heap c' b) = map_option end' (heap c b) \<and>
      map_option visible (heap c' b) = map_option visible (heap c b) \<and>
      map_option hidden (heap c' b) = map_option hidden (heap c b)" for b
    using pass_links [of "flatten t" c1 b] pass_same_dates [OF R1, of b] dates1 [of b]
      same1 [of b] c'(3)
    by simp
  have vis: "map_option visible (heap c' (ndata n)) = Some []"
    "map_option hidden (heap c' (ndata n)) = Some []"
    using same2 [of a] r assms(5,6) by (simp_all add: a_def)
  have nodes: "map ndata (seriesNodes c') = map ndata (seriesNodes c)"
    using c'(2) sn by (simp add: flatten_ndata)
  show ?thesis
    by (intro exI [of _ c'] conjI allI c'(1) nodes vis F same2 [THEN conjunct1]
        same2 [THEN conjunct2, THEN conjunct1]
        same2 [THEN conjunct2, THEN conjunct2, THEN conjunct1]
        same2 [THEN conjunct2, THEN conjunct2, THEN conjunct2, THEN conjunct1]
        same2 [THEN conjunct2, THEN conjunct2, THEN conjunct2, THEN conjunct2])
qed

theorem click_leaf_witness:
  "map_option (\<lambda>c'. map ndata (seriesNodes c')) (click 3 nodeB exampleGantt) = Some [0, 1] \<and>
   map_option (\<lambda>c'. map_option visible (heap c' 1)) (click 3 nodeB exampleGantt)
     = Some (Some []) \<and>
   map_option (\<lambda>c'. map_option hidden (heap c' 1)) (click 3 nodeB exampleGantt)
     = Some (Some []) \<and>
   map ndata (seriesNodes exampleGantt) = [0, 1]"
  using click_leaf [of exampleGantt exampleTree 3 nodeB recordB]
  by (auto simp add: flattened_def rooted_def example_defs visible_def hidden_def)

subsection \<open>Collapsing and expanding a record\<close>

text \<open>
  C3. In a flattened state, a click on a bar whose record has visible children
  returns and lists the tree pruned at that record (a subsequence of the list
  before, the record itself now without visible children); a second click on the
  bar of the same record returns as well, and afterwards the node list holds the
  same records in the same order as before the first click, and every record of
  the store has the name, the start, the end and the visible children it had
  before the first click. The keys are not compared. In the scenario of the two
  records, the click on A lists A only and the second click lists A, B again, as
  the example after the theorem shows.
\<close>

theorem collapse_expand:
  assumes "flattened c t" and "levels t \<le> fuel"
    and "ndata n \<in> set (map ndata (seriesNodes c))"
    and "heap c (ndata n) = Some r" and "visible r \<noteq> []" and "ndata n' = ndata n"
  shows "\<exists>c1 c2. click fuel n c = Some c1 \<and> click fuel n' c1 = Some c2 \<and>
           map ndata (seriesNodes c1) = tl (preorder (prune (ndata n) t)) \<and>
           subseq (map ndata (seriesNodes c1)) (map ndata (seriesNodes c)) \<and>
           map_option visible (heap c1 (ndata n)) = Some [] \<and>
           map_option hidden (heap c1 (ndata n)) = Some (visible r) \<and>
           map ndata (seriesNodes c2) = map ndata (seriesNodes c) \<and>
           (\<forall>b. map_option name (heap c2 b) = map_option name (heap c b) \<and>
                map_option start (heap c2 b) = map_option start (heap c b) \<and>
                map_option end' (heap c2 b) = map_option end' (heap c b) \<and>
                map_option visible (heap c2 b) = map_option visible (heap c b)) \<and>
           flattened c2 t"
proof -
  define a where "a = ndata n"
  define src where "src = serieSource c"
  define t1 where "t1 = prune a t"
  define ca where "ca = c\<lparr>heap := (heap c)(a \<mapsto> toggle r)\<rparr>"
  have R: "rooted c src t" and sn: "map ndata (seriesNodes c) = tl (preorder t)"
    and old: "older (next_uuid c) (Some (rootKEY c))"
    using assms(1) by (simp_all add: flattened_def src_def)
  have r: "heap c a = Some r" using assms(4) by (simp add: a_def)
  have aT: "a \<in> set (tl (preorder t))" using assms(3) sn by (simp add: a_def)
  have a_src: "a \<noteq> src" using aT src_not_in_tl [OF R] by auto
  note TC = toggle_collapse [OF assms(5)] and TF = toggle_fields [of r]
  have T1: "subseq (tl (preorder t1)) (tl (preorder t))"
    unfolding t1_def by (rule prune_tl_subseq)
  have T1s: "b \<in> set (tl (preorder t))" if "b \<in> set (tl (preorder t1))" for b
    using subseq_set [OF T1] that by auto
  (* the first click: the record is collapsed and the pruned tree flattened *)
  have Ra: "rooted ca src t1"
  proof (rule rootedI)
    show "raddr t1 = src" using rootedD(1) [OF R] by (simp add: t1_def raddr_prune)
    show "distinct (preorder t1)"
      unfolding t1_def using prune_subseq rootedD(3) [OF R] by (rule subseq_distinct)
    show "shape (heap ca) t1"
      unfolding t1_def
      by (rule shape_prune [OF rootedD(2) [OF R], of _ a "toggle r"])
         (simp_all add: ca_def TC)
    show "\<exists>r. heap ca src = Some r \<and> key r = Some (rootKEY ca)"
      using rootedD(4) [OF R] a_src by (simp add: ca_def)
    show "\<exists>r. heap ca b = Some r \<and> key r \<noteq> Some (rootKEY ca)"
      if "b \<in> set (tl (preorder t1))" for b
      using rootedD(5) [OF R T1s [OF that]] r TF by (auto simp: ca_def)
  qed
  have Ra': "rooted (c\<lparr>heap := (heap c)(ndata n \<mapsto> toggle r)\<rparr>) (serieSource c) t1"
    using Ra by (simp add: ca_def a_def src_def)
  have lv: "levels t1 \<le> fuel"
    using levels_prune [of a t] assms(2) by (simp add: t1_def)
  obtain c1 where c1: "click fuel n c = Some c1" "seriesNodes c1 = flatten t1"
    "heap c1 = heap (fold preProcess_map (flatten t1) ca)"
    "next_uuid c1 = next_uuid c + length (flatten t1)"
    "rootKEY c1 = rootKEY c" "serieSource c1 = serieSource c"
    using click_run [OF assms(4) Ra' lv] by (auto simp: ca_def a_def)
  have F1: "flattened c1 t1"
    by (rule pass_flattened [OF Ra, of c1]) (use old c1 in \<open>simp_all add: ca_def src_def\<close>)
  have R1: "rooted c1 src t1" and old1: "older (next_uuid c1) (Some (rootKEY c1))"
    using F1 c1(6) by (simp_all add: flattened_def src_def)
  have a1: "a \<in> set (tl (preorder t1))"
    unfolding t1_def using aT rootedD(3) [OF R] by (rule prune_at)
  obtain i where "heap c1 a = map_option (processed (next_uuid ca + i)) (heap ca a)"
    using pass_record [OF Ra a1] c1(3) by auto
  then have r1: "heap c1 a = Some (processed (next_uuid ca + i) (toggle r))"
    by (simp add: ca_def)
  define r1 where "r1 = processed (next_uuid ca + i) (toggle r)"
  have r1_data: "data r1 = None" and r1_hidden: "hidden r1 = visible r"
    and r1_visible: "visible r1 = []"
    using TC processed_fields [of "next_uuid ca + i" "toggle r"] by (simp_all add: r1_def)
  have datesa: "is_Date (start r') \<and> is_Date (end' r')"
    if "b \<in> set (tl (preorder t))" "heap ca b = Some r'" for b r'
  proof (cases "b = a")
    case True
    then show ?thesis
      using that flattened_dates [OF assms(1) that(1) r [folded True]] TF
      by (simp add: ca_def)
  next
    case False
    then show ?thesis
      using that flattened_dates [OF assms(1) that(1), of r'] by (simp add: ca_def)
  qed
  have same_a: "map_option name (heap ca b) = map_option name (heap c b) \<and>
      map_option start (heap ca b) = map_option start (heap c b) \<and>
      map_option end' (heap ca b) = map_option end' (heap c b)" for b
    using r TF by (simp add: ca_def)
  have same1: "map_option name (heap c1 b) = map_option name (heap c b) \<and>
      map_option start (heap c1 b) = map_option start (heap c b) \<and>
      map_option end' (heap c1 b) = map_option end' (heap c b)" for b
    using pass_links [of "flatten t1" ca b] pass_same_dates [OF Ra, of b]
      datesa [OF T1s, of b] same_a [of b] c1(3)
    by simp
  have vis1: "map_option visible (heap c1 b) = map_option visible (heap c b)" if "b \<noteq> a" for b
    using pass_links [of "flatten t1" ca b] c1(3) that by (simp add: ca_def)
  (* the second click: the record is expanded and the whole tree flattened *)
  define cb where "cb = c1\<lparr>heap := (heap c1)(a \<mapsto> toggle r1)\<rparr>"
  note TE = toggle_expand [OF r1_data] and TF1 = toggle_fields [of r1]
  have visb: "map_option visible (heap cb b) = map_option visible (heap c b)" for b
    using vis1 [of b] TE r1_hidden r by (simp add: cb_def)
  have keyb: "\<exists>r'. heap cb b = Some r' \<and> key r' \<noteq> Some (rootKEY cb)"
    if b: "b \<in> set (tl (preorder t))" for b
  proof (cases "b \<in> set (tl (preorder t1))")
    case True
    obtain r' where r': "heap c1 b = Some r'" "key r' \<noteq> Some (rootKEY c1)"
      using rootedD(5) [OF R1 True] by blast
    show ?thesis
    proof (cases "b = a")
      case True
      then show ?thesis using r' r1 TF1 by (simp add: cb_def r1_def)
    next
      case False
      then show ?thesis using r' by (simp add: cb_def)
    qed
  next
    case False
    then have ba: "b \<noteq> a" using a1 by auto
    have "heap c1 b = heap ca b"
      using pass_fields(4) [OF Ra False] c1(3) by simp
    then have "heap cb b = heap c b" using ba by (simp add: cb_def ca_def)
    then show ?thesis using rootedD(5) [OF R b] c1(5) by (simp add: cb_def)
  qed
  have Rb: "rooted cb src t"
  proof (rule rootedI)
    show "raddr t = src" "distinct (preorder t)" using rootedD(1,3) [OF R] by simp_all
    show "shape (heap cb) t"
      using shape_visible_cong [of "heap cb" "heap c" t] visb rootedD(2) [OF R] by simp
    show "\<exists>r. heap cb src = Some r \<and> key r = Some (rootKEY cb)"
      using rootedD(4) [OF R1] a_src by (simp add: cb_def)
    show "\<exists>r. heap cb b = Some r \<and> key r \<noteq> Some (rootKEY cb)"
      if "b \<in> set (tl (preorder t))" for b
      using that by (rule keyb)
  qed
  have n': "heap c1 (ndata n') = Some r1" using r1 assms(6) by (simp add: a_def r1_def)
  have Rb': "rooted (c1\<lparr>heap := (heap c1)(ndata n' \<mapsto> toggle r1)\<rparr>) (serieSource c1) t"
    using Rb assms(6) c1(6) by (simp add: cb_def a_def src_def)
  obtain c2 where c2: "click fuel n' c1 = Some c2" "seriesNodes c2 = flatten t"
    "heap c2 = heap (fold preProcess_map (flatten t) cb)"
    "next_uuid c2 = next_uuid c1 + length (flatten t)"
    "rootKEY c2 = rootKEY c1" "serieSource c2 = serieSource c1"
    using click_run [OF n' Rb' assms(2)] assms(6) by (auto simp: cb_def a_def)
  have F2: "flattened c2 t"
    by (rule pass_flattened [OF Rb, of c2])
       (use old1 c2 c1(6) in \<open>simp_all add: cb_def src_def\<close>)
  have sameb: "map_option name (heap cb b) = map_option name (heap c1 b) \<and>
      map_option start (heap cb b) = map_option start (heap c1 b) \<and>
      map_option end' (heap cb b) = map_option end' (heap c1 b)" for b
    using r1 TF1 by (simp add: cb_def r1_def)
  have datesb: "is_Date (start r') \<and> is_Date (end' r')"
    if b: "b \<in> set (tl (preorder t))" and h: "heap cb b = Some r'" for b r'
  proof -
    obtain r0 where r0: "heap c b = Some r0"
      using rootedD(5) [OF R b] by blast
    have "map_option start (heap cb b) = map_option start (heap c b) \<and>
          map_option end' (heap cb b) = map_option end' (heap c b)"
      using same1 [of b] sameb [of b] by simp
    then have "start r' = start r0 \<and> end' r' = end' r0" using h r0 by simp
    then show ?thesis using flattened_dates [OF assms(1) b r0] by simp
  qed
  have same2: "map_option name (heap c2 b) = map_option name (heap c b) \<and>
      map_option start (heap c2 b) = map_option start (heap c b) \<and>
      map_option end' (heap c2 b) = map_option end' (heap c b) \<and>
      map_option visible (heap c2 b) = map_option visible (heap c b)" for b
    using pass_links [of "flatten t" cb b] pass_same_dates [OF Rb, of b] datesb [of b]
      sameb [of b] same1 [of b] visb [of b] c2(3)
    by simp
  have nodes1: "map ndata (seriesNodes c1) = tl (preorder (prune (ndata n) t))"
    using c1(2) by (simp add: flatten_ndata t1_def a_def)
  have sub1: "subseq (map ndata (seriesNodes c1)) (map ndata (seriesNodes c))"
    using T1 c1(2) sn by (simp add: flatten_ndata)
  have col: "map_option visible (heap c1 (ndata n)) = Some []"
    "map_option hidden (heap c1 (ndata n)) = Some (visible r)"
    using r1 r1_visible r1_hidden by (simp_all add: a_def r1_def)
  have nodes2: "map ndata (seriesNodes c2) = map ndata (seriesNodes c)"
    using c2(2) sn by (simp add: flatten_ndata)
  show ?thesis
    by (intro exI [of _ c1] exI [of _ c2] conjI allI c1(1) c2(1) nodes1 sub1 col nodes2 F2
        same2 [THEN conjunct1]
        same2 [THEN conjunct2, THEN conjunct1]
        same2 [THEN conjunct2, THEN conjunct2, THEN conjunct1]
        same2 [THEN conjunct2, THEN conjunct2, THEN conjunct2])
qed

theorem collapse_expand_witness:
  "map_option (\<lambda>c'. map ndata (seriesNodes c')) (click 3 nodeA exampleGantt) = Some [0] \<and>
   map_option (\<lambda>c'. map ndata (seriesNodes c'))
     (Option.bind (click 3 nodeA exampleGantt) (click 3 (Node 1 0 0 (Some 2) []))) = Some [0, 1] \<and>
   map ndata (seriesNodes exampleGantt) = [0, 1]"
  using collapse_expand [of exampleGantt exampleTree 3 nodeA recordA "Node 1 0 0 (Some 2) []"]
  by (auto simp add: flattened_def rooted_def example_defs visible_def hidden_def)

section \<open>Reconciling the bars with the node list\<close>

subsection \<open>The keyed join\<close>

lemma find_snoc:
  "find P (vs @ [v]) = (case find P vs of None \<Rightarrow> (if P v then Some v else None) | Some w \<Rightarrow> Some w)"
  by (induction vs) auto

lemma find_mem: "v \<in> set vs \<Longrightarrow> P v \<Longrightarrow> find P vs \<noteq> None"
  by (auto simp: find_None_iff)

lemma find_SomeD: "find P vs = Some v \<Longrightarrow> v \<in> set vs \<and> P v"
  by (auto simp: find_Some_iff)

lemma bind_group_snoc:
  "bind_group kf (grp @ [e]) =
     (case bind_group kf grp of
        (m, dups) \<Rightarrow>
          if m (kf (datum e)) \<noteq> None then (m, dups @ [e])
          else (m(kf (datum e) \<mapsto> e), dups))"
  by (simp add: bind_group_def split: prod.splits)

lemma bind_group_map:
  "fst (bind_group kf grp) = (\<lambda>k. find (\<lambda>e. kf (datum e) = k) grp)"
proof (induction grp rule: rev_induct)
  case Nil
  then show ?case by (simp add: bind_group_def)
next
  case (snoc e grp)
  obtain m dups where b: "bind_group kf grp = (m, dups)" by (cases "bind_group kf grp")
  have m: "m = (\<lambda>k. find (\<lambda>e. kf (datum e) = k) grp)" using snoc b by simp
  show ?case
  proof (rule ext)
    fix k
    show "fst (bind_group kf (grp @ [e])) k = find (\<lambda>e. kf (datum e) = k) (grp @ [e])"
      using b m by (auto simp: bind_group_snoc find_snoc split: option.splits)
  qed
qed

lemma bind_group_dups:
  "distinct grp \<Longrightarrow>
   set (snd (bind_group kf grp))
     = {e \<in> set grp. find (\<lambda>e'. kf (datum e') = kf (datum e)) grp \<noteq> Some e}"
proof (induction grp rule: rev_induct)
  case Nil
  then show ?case by (simp add: bind_group_def)
next
  case (snoc e grp)
  obtain m dups where b: "bind_group kf grp = (m, dups)" by (cases "bind_group kf grp")
  have m: "m = (\<lambda>k. find (\<lambda>e. kf (datum e) = k) grp)"
    using bind_group_map [of kf grp] b by simp
  have d: "distinct grp" and e: "e \<notin> set grp" using snoc.prems by simp_all
  have IH: "set dups = {x \<in> set grp. find (\<lambda>e'. kf (datum e') = kf (datum x)) grp \<noteq> Some x}"
    using snoc.IH [OF d] b by simp
  have old: "find (\<lambda>e'. kf (datum e') = kf (datum x)) (grp @ [e])
      = find (\<lambda>e'. kf (datum e') = kf (datum x)) grp" if "x \<in> set grp" for x
  proof -
    have "find (\<lambda>e'. kf (datum e') = kf (datum x)) grp \<noteq> None"
      using that by (intro find_mem [of x]) simp_all
    then show ?thesis by (auto simp: find_snoc)
  qed
  show ?case
  proof (cases "m (kf (datum e))")
    case None
    then have new: "find (\<lambda>e'. kf (datum e') = kf (datum e)) (grp @ [e]) = Some e"
      using m by (simp add: find_snoc)
    have "set (snd (bind_group kf (grp @ [e]))) = set dups"
      using b None by (simp add: bind_group_snoc)
    also have "\<dots> = {x \<in> set (grp @ [e]).
        find (\<lambda>e'. kf (datum e') = kf (datum x)) (grp @ [e]) \<noteq> Some x}"
      using IH old new by auto
    finally show ?thesis .
  next
    case (Some w)
    then have "find (\<lambda>e'. kf (datum e') = kf (datum e)) grp = Some w" using m by simp
    then have new: "find (\<lambda>e'. kf (datum e') = kf (datum e)) (grp @ [e]) = Some w"
      and w: "w \<in> set grp"
      using find_SomeD [of "\<lambda>e'. kf (datum e') = kf (datum e)" grp w]
      by (simp_all add: find_snoc)
    have we: "w \<noteq> e" using w e by auto
    have "set (snd (bind_group kf (grp @ [e]))) = insert e (set dups)"
      using b Some by (simp add: bind_group_snoc)
    also have "\<dots> = {x \<in> set (grp @ [e]).
        find (\<lambda>e'. kf (datum e') = kf (datum x)) (grp @ [e]) \<noteq> Some x}"
      using IH old new we by auto
    finally show ?thesis .
  qed
qed

lemma bind_data_props:
  assumes "bind_data kf ds m = (up, en, m1)"
  shows "datum ` set (concat (map opt_list up)) \<union> set (concat (map opt_list en)) = set ds \<and>
         (\<forall>u\<in>set (concat (map opt_list up)).
            \<exists>e. m (kf (datum u)) = Some e \<and> u = e\<lparr>datum := datum u\<rparr>) \<and>
         (\<forall>k e. m k = Some e \<longrightarrow> k \<in> kf ` set ds \<longrightarrow>
            (\<exists>d\<in>set ds. kf d = k \<and> e\<lparr>datum := d\<rparr> \<in> set (concat (map opt_list up)))) \<and>
         m1 = (\<lambda>k. if k \<in> kf ` set ds then None else m k)"
  using assms
proof (induction ds arbitrary: m up en m1)
  case Nil
  then show ?case by auto
next
  case (Cons d ds)
  show ?case
  proof (cases "m (kf d)")
    case None
    obtain up' en' where r: "bind_data kf ds m = (up', en', m1)"
      and up: "up = None # up'" and en: "en = Some d # en'"
      using Cons.prems None by (auto split: prod.splits)
    note IH = Cons.IH [OF r]
    have 1: "datum ` set (concat (map opt_list up)) \<union> set (concat (map opt_list en))
        = set (d # ds)"
      using IH up en by auto
    have 2: "\<forall>u\<in>set (concat (map opt_list up)).
        \<exists>e. m (kf (datum u)) = Some e \<and> u = e\<lparr>datum := datum u\<rparr>"
      using IH up by simp
    have 3: "\<forall>k e. m k = Some e \<longrightarrow> k \<in> kf ` set (d # ds) \<longrightarrow>
        (\<exists>d'\<in>set (d # ds). kf d' = k \<and> e\<lparr>datum := d'\<rparr> \<in> set (concat (map opt_list up)))"
    proof (intro allI impI)
      fix k e assume me: "m k = Some e" and k: "k \<in> kf ` set (d # ds)"
      have "k \<noteq> kf d" using me None by auto
      then have "k \<in> kf ` set ds" using k by auto
      then obtain d' where "d' \<in> set ds" "kf d' = k"
        "e\<lparr>datum := d'\<rparr> \<in> set (concat (map opt_list up'))"
        using IH me by blast
      then show "\<exists>d'\<in>set (d # ds). kf d' = k \<and> e\<lparr>datum := d'\<rparr> \<in> set (concat (map opt_list up))"
        using up by auto
    qed
    have 4: "m1 = (\<lambda>k. if k \<in> kf ` set (d # ds) then None else m k)"
      using IH None by auto
    show ?thesis using 1 2 3 4 by blast
  next
    case (Some node)
    obtain up' en' where r: "bind_data kf ds (m(kf d := None)) = (up', en', m1)"
      and up: "up = Some (node\<lparr>datum := d\<rparr>) # up'" and en: "en = None # en'"
      using Cons.prems Some by (auto split: prod.splits)
    note IH = Cons.IH [OF r]
    have 1: "datum ` set (concat (map opt_list up)) \<union> set (concat (map opt_list en))
        = set (d # ds)"
      using IH up en by auto
    have 2: "\<forall>u\<in>set (concat (map opt_list up)).
        \<exists>e. m (kf (datum u)) = Some e \<and> u = e\<lparr>datum := datum u\<rparr>"
    proof
      fix u assume "u \<in> set (concat (map opt_list up))"
      then consider "u = node\<lparr>datum := d\<rparr>" | "u \<in> set (concat (map opt_list up'))"
        using up by auto
      then show "\<exists>e. m (kf (datum u)) = Some e \<and> u = e\<lparr>datum := datum u\<rparr>"
      proof cases
        case 1
        then show ?thesis using Some by auto
      next
        case 2
        then obtain e where "(m(kf d := None)) (kf (datum u)) = Some e" "u = e\<lparr>datum := datum u\<rparr>"
          using IH by blast
        then show ?thesis by (auto split: if_splits)
      qed
    qed
    have 3: "\<forall>k e. m k = Some e \<longrightarrow> k \<in> kf ` set (d # ds) \<longrightarrow>
        (\<exists>d'\<in>set (d # ds). kf d' = k \<and> e\<lparr>datum := d'\<rparr> \<in> set (concat (map opt_list up)))"
    proof (intro allI impI)
      fix k e assume me: "m k = Some e" and k: "k \<in> kf ` set (d # ds)"
      show "\<exists>d'\<in>set (d # ds). kf d' = k \<and> e\<lparr>datum := d'\<rparr> \<in> set (concat (map opt_list up))"
      proof (cases "k = kf d")
        case True
        then have "e = node" using me Some by simp
        then show ?thesis using True up by auto
      next
        case False
        then have "k \<in> kf ` set ds" "(m(kf d := None)) k = Some e" using k me by auto
        then obtain d' where "d' \<in> set ds" "kf d' = k"
          "e\<lparr>datum := d'\<rparr> \<in> set (concat (map opt_list up'))"
          using IH by blast
        then show ?thesis using up by auto
      qed
    qed
    have 4: "m1 = (\<lambda>k. if k \<in> kf ` set (d # ds) then None else m k)"
      using IH by auto
    show ?thesis using 1 2 3 4 by blast
  qed
qed

lemma enter_append_datum:
  "(\<And>n d. datum (mk n d) = d)
    \<Longrightarrow> datum ` set (enter_append mk n en) = set (concat (map opt_list en))"
proof (induction mk n en rule: enter_append.induct)
  case (3 mk n d es)
  then show ?case by simp
qed simp_all

lemma enter_append_eid:
  "(\<And>n d. eid (mk n d) = n) \<Longrightarrow> e \<in> set (enter_append mk n en) \<Longrightarrow> n \<le> eid e"
proof (induction mk n en rule: enter_append.induct)
  case (3 mk n d es)
  then show ?case by (auto simp: Suc_le_eq dest: less_imp_le)
qed simp_all

lemma distinct_map_find:
  "distinct (map f vs) \<Longrightarrow> v \<in> set vs \<Longrightarrow> find (\<lambda>w. f w = f v) vs = Some v"
proof (induction vs)
  case (Cons w ws)
  then show ?case by (cases "w = v") (auto simp: image_iff)
qed simp

subsection \<open>The layer after a reconciliation\<close>

text \<open>
  C5. Let L1 be the keys of the rectangles in the layer and L2 the keys of the
  nodes to draw, both read from the store at the time of the reconciliation, the
  rectangles being distinct elements created earlier. After \<open>renderGantt\<close> the
  keys of the layer are, as a set, exactly those of L2. A rectangle of the new
  layer whose key is not in L1 is a newly created element. A rectangle of the old
  layer whose key is not in L2 is no longer in the layer. A rectangle of the old
  layer whose key is in L2, and which is the first of the layer with its key,
  stays in the layer as the same element: it is bound to a node of the new list
  with that key, keeps its class and fill and is targeted to the current scales.
  When the keys of L1 are pairwise distinct, every rectangle is the first with its
  key, so every rectangle whose key is in L1 and L2 stays.
\<close>

theorem renderGantt_reconciles:
  assumes "distinct (map eid (ganttLayer c))"
    and "list_all (\<lambda>e. eid e < next_eid c) (ganttLayer c)"
  shows "heap (renderGantt c) = heap c \<and>
         set (layer_keys (renderGantt c)) = set (node_keys c) \<and>
         (\<forall>e'\<in>set (ganttLayer (renderGantt c)).
            rect_key (heap c) e' \<notin> set (layer_keys c)
              \<longrightarrow> eid e' \<notin> set (map eid (ganttLayer c))) \<and>
         (\<forall>e\<in>set (ganttLayer c).
            rect_key (heap c) e \<notin> set (node_keys c)
              \<longrightarrow> eid e \<notin> set (map eid (ganttLayer (renderGantt c)))) \<and>
         (\<forall>e\<in>set (ganttLayer c).
            rect_key (heap c) e \<in> set (node_keys c) \<and>
            find (\<lambda>e'. rect_key (heap c) e' = rect_key (heap c) e) (ganttLayer c) = Some e
              \<longrightarrow> (\<exists>e'\<in>set (ganttLayer (renderGantt c)).
                     eid e' = eid e \<and> rect_key (heap c) e' = rect_key (heap c) e \<and>
                     datum e' \<in> set (seriesNodes c) \<and>
                     rect_class e' = rect_class e \<and> fill e' = fill e \<and>
                     pos_x e' = xScale c \<and> pos_y e' = yScale c)) \<and>
         (distinct (layer_keys c) \<longrightarrow>
            (\<forall>e\<in>set (ganttLayer c).
               rect_key (heap c) e \<in> set (node_keys c)
                 \<longrightarrow> (\<exists>e'\<in>set (ganttLayer (renderGantt c)).
                        eid e' = eid e \<and> rect_key (heap c) e' = rect_key (heap c) e)))"
proof -
  define kf where "kf = key_of (heap c)"
  define grp where "grp = ganttLayer c"
  define ds where "ds = seriesNodes c"
  define target where "target = (\<lambda>e::Rect. e\<lparr>pos_x := xScale c, pos_y := yScale c\<rparr>)"
  define mk where "mk = (\<lambda>n d. target \<lparr>eid = n, datum = d, rect_class = name_of (heap c) d,
      fill = (key_of (heap c) d, color c), pos_x = xScale c, pos_y = yScale c\<rparr>)"
  obtain m0 dups where b1: "bind_group kf grp = (m0, dups)" by (cases "bind_group kf grp")
  obtain up en m1 where b2: "bind_data kf ds m0 = (up, en, m1)"
    by (cases "bind_data kf ds m0") auto
  define exit where
    "exit = filter (\<lambda>node. node \<in> set dups \<or> m1 (kf (datum node)) = Some node) grp"
  define updated where "updated = map target (concat (map opt_list up))"
  define entered where "entered = enter_append mk (next_eid c) en"
  define upd where
    "upd = (\<lambda>e. case find (\<lambda>u. eid u = eid e) updated of Some u \<Rightarrow> u | None \<Rightarrow> e)"
  define kept where "kept = map upd (filter (\<lambda>e. e \<notin> set exit) grp)"
  have layer: "ganttLayer (renderGantt c) = kept @ entered"
    unfolding kept_def upd_def entered_def updated_def exit_def mk_def target_def
    using b1 b2 unfolding kf_def grp_def ds_def
    by (simp add: renderGantt_def bindKey_def Let_def)
  have heap': "heap (renderGantt c) = heap c"
    by (simp add: renderGantt_def Let_def split: prod.splits)
  have rk: "rect_key (heap c) e = kf (datum e)" for e
    by (simp add: rect_key_def kf_def)
  have rk': "rect_key (heap c) = (\<lambda>e. kf (datum e))"
    by (rule ext) (rule rk)
  have lk': "set (layer_keys (renderGantt c)) = (\<lambda>e. kf (datum e)) ` (set kept \<union> set entered)"
    unfolding layer_keys_def heap' layer rk' by (simp add: image_Un)
  have lk: "set (layer_keys c) = (\<lambda>e. kf (datum e)) ` set grp"
    unfolding layer_keys_def rk' grp_def by simp
  have nk: "set (node_keys c) = kf ` set ds"
    unfolding node_keys_def kf_def ds_def by simp
  have m0: "m0 = (\<lambda>k. find (\<lambda>e. kf (datum e) = k) grp)"
    using bind_group_map [of kf grp] b1 by simp
  have dg: "distinct grp" and inj: "inj_on eid (set grp)"
    using assms(1) by (simp_all add: distinct_map grp_def)
  have dups: "set dups = {e \<in> set grp. m0 (kf (datum e)) \<noteq> Some e}"
    using bind_group_dups [OF dg, of kf] b1 m0 by simp
  note A = bind_data_props [OF b2]
  note A1 = A [THEN conjunct1] and A2 = A [THEN conjunct2, THEN conjunct1, rule_format]
    and A3 = A [THEN conjunct2, THEN conjunct2, THEN conjunct1, rule_format]
    and A4 = A [THEN conjunct2, THEN conjunct2, THEN conjunct2]
  have A1a: "datum v \<in> set ds" if "v \<in> set (concat (map opt_list up))" for v
    unfolding A1 [symmetric] using that by blast
  have A1b: "d \<in> set ds" if "d \<in> set (concat (map opt_list en))" for d
    unfolding A1 [symmetric] using that by blast
  have A1c: "d \<in> datum ` set (concat (map opt_list up)) \<or> d \<in> set (concat (map opt_list en))"
    if "d \<in> set ds" for d
    using that unfolding A1 [symmetric] by blast
  have m0_mem: "e \<in> set grp \<and> kf (datum e) = k" if "m0 k = Some e" for k e
    using that find_SomeD [of "\<lambda>e. kf (datum e) = k" grp e] by (simp add: m0)
  have exit_iff: "e \<in> set exit \<longleftrightarrow> \<not> (m0 (kf (datum e)) = Some e \<and> kf (datum e) \<in> kf ` set ds)"
    if "e \<in> set grp" for e
    using that dups by (auto simp: exit_def A4)
  have target_fields: "eid (target e) = eid e \<and> datum (target e) = datum e \<and>
      rect_class (target e) = rect_class e \<and> fill (target e) = fill e \<and>
      pos_x (target e) = xScale c \<and> pos_y (target e) = yScale c" for e
    by (simp add: target_def)
  have upd_char: "\<exists>d\<in>set ds. u = target (e\<lparr>datum := d\<rparr>) \<and> kf d = kf (datum e)"
    if u: "u \<in> set updated" and e: "e \<in> set grp" and id: "eid u = eid e" for u e
  proof -
    obtain v where v: "v \<in> set (concat (map opt_list up))" "u = target v"
      using u by (auto simp: updated_def)
    obtain e' where e': "m0 (kf (datum v)) = Some e'" "v = e'\<lparr>datum := datum v\<rparr>"
      using A2 [OF v(1)] by blast
    have "eid e' = eid e" using e'(2) v(2) id target_fields [of v]
      by (metis Rect.select_convs(1) Rect.surjective Rect.update_convs(2))
    moreover have "e' \<in> set grp" "kf (datum e') = kf (datum v)"
      using m0_mem [OF e'(1)] by simp_all
    ultimately have ee: "e' = e" using inj e by (auto dest: inj_onD)
    have dv: "datum v \<in> set ds" using v(1) by (rule A1a)
    have "u = target (e\<lparr>datum := datum v\<rparr>)" using e'(2) v(2) ee by simp
    moreover have "kf (datum v) = kf (datum e)"
      using \<open>kf (datum e') = kf (datum v)\<close> ee by simp
    ultimately show ?thesis using dv by blast
  qed
  have upd_ex: "\<exists>u\<in>set updated. eid u = eid e" if e: "e \<in> set grp" "e \<notin> set exit" for e
  proof -
    have "m0 (kf (datum e)) = Some e" "kf (datum e) \<in> kf ` set ds"
      using exit_iff [OF e(1)] e(2) by simp_all
    then obtain d where "e\<lparr>datum := d\<rparr> \<in> set (concat (map opt_list up))"
      using A3 by blast
    then have "target (e\<lparr>datum := d\<rparr>) \<in> set updated" by (simp add: updated_def)
    moreover have "eid (target (e\<lparr>datum := d\<rparr>)) = eid e" by (simp add: target_def)
    ultimately show ?thesis by blast
  qed
  have upd_kept: "\<exists>d\<in>set ds. upd e = target (e\<lparr>datum := d\<rparr>) \<and> kf d = kf (datum e)"
    if e: "e \<in> set grp" "e \<notin> set exit" for e
  proof -
    obtain u0 where "u0 \<in> set updated" "eid u0 = eid e" using upd_ex [OF e] by blast
    then have "find (\<lambda>u. eid u = eid e) updated \<noteq> None" by (rule find_mem)
    then obtain u where f: "find (\<lambda>u. eid u = eid e) updated = Some u" by auto
    then have "u \<in> set updated" "eid u = eid e"
      using find_SomeD [of "\<lambda>u. eid u = eid e" updated u] by simp_all
    then show ?thesis using upd_char [OF _ e(1)] f by (simp add: upd_def)
  qed
  have kept_char: "\<exists>e\<in>set grp. e \<notin> set exit \<and>
      (\<exists>d\<in>set ds. e' = target (e\<lparr>datum := d\<rparr>) \<and> kf d = kf (datum e))"
    if ek: "e' \<in> set kept" for e'
  proof -
    obtain e where "e \<in> set grp" "e \<notin> set exit" "e' = upd e"
      using ek by (auto simp: kept_def)
    then show ?thesis using upd_kept [of e] by auto
  qed
  have ent_datum: "datum ` set entered = set (concat (map opt_list en))"
    unfolding entered_def by (rule enter_append_datum) (simp add: mk_def target_def)
  have ent_eid: "next_eid c \<le> eid e" if "e \<in> set entered" for e
    using that unfolding entered_def
    by (rule enter_append_eid [rotated]) (simp add: mk_def target_def)
  have old_eid: "eid e < next_eid c" if "e \<in> set grp" for e
    using assms(2) that by (simp add: list_all_iff grp_def)
  have keys: "set (layer_keys (renderGantt c)) = set (node_keys c)"
  proof (intro set_eqI iffI)
    fix k assume "k \<in> set (layer_keys (renderGantt c))"
    then obtain e' where e': "e' \<in> set kept \<union> set entered" "k = kf (datum e')"
      unfolding lk' by blast
    have "datum e' \<in> set ds"
    proof (cases "e' \<in> set kept")
      case True
      then obtain e d where "d \<in> set ds" "e' = target (e\<lparr>datum := d\<rparr>)"
        using kept_char by blast
      then show ?thesis by (simp add: target_def)
    next
      case False
      then have "e' \<in> set entered" using e'(1) by simp
      then have "datum e' \<in> datum ` set entered" by (rule imageI)
      then have "datum e' \<in> set (concat (map opt_list en))" by (simp only: ent_datum)
      then show ?thesis by (rule A1b)
    qed
    then show "k \<in> set (node_keys c)" unfolding nk using e'(2) by blast
  next
    fix k assume "k \<in> set (node_keys c)"
    then obtain d where d: "d \<in> set ds" "k = kf d"
      unfolding nk by blast
    then consider u where "u \<in> set (concat (map opt_list up))" "datum u = d"
      | "d \<in> set (concat (map opt_list en))"
      using A1c [of d] by blast
    then have "\<exists>e'\<in>set kept \<union> set entered. kf (datum e') = k"
    proof cases
      case 1
      obtain e where e: "m0 (kf (datum u)) = Some e" using A2 [OF 1(1)] by blast
      have eg: "e \<in> set grp" "kf (datum e) = kf d" using m0_mem [OF e] 1(2) by simp_all
      have "kf (datum e) \<in> kf ` set ds" using eg(2) d(1) by simp
      moreover have "m0 (kf (datum e)) = Some e" using e eg(2) 1(2) by simp
      ultimately have ne: "e \<notin> set exit" using exit_iff [OF eg(1)] by simp
      then obtain d' where d': "upd e = target (e\<lparr>datum := d'\<rparr>)" "kf d' = kf (datum e)"
        using upd_kept [OF eg(1)] by blast
      have "upd e \<in> set kept" using eg(1) ne by (simp add: kept_def)
      moreover have "kf (datum (upd e)) = k"
        using d' eg(2) d(2) by (simp add: target_def)
      ultimately show ?thesis by blast
    next
      case 2
      then have "d \<in> datum ` set entered" by (simp only: ent_datum)
      then obtain e' where "e' \<in> set entered" "datum e' = d" by blast
      then show ?thesis using d(2) by blast
    qed
    then show "k \<in> set (layer_keys (renderGantt c))"
      unfolding lk' by blast
  qed
  have created: "\<forall>e'\<in>set (ganttLayer (renderGantt c)).
      rect_key (heap c) e' \<notin> set (layer_keys c) \<longrightarrow> eid e' \<notin> set (map eid (ganttLayer c))"
  proof (intro ballI impI)
    fix e' assume e': "e' \<in> set (ganttLayer (renderGantt c))"
      and k: "rect_key (heap c) e' \<notin> set (layer_keys c)"
    have "e' \<notin> set kept"
    proof
      assume "e' \<in> set kept"
      then obtain e d where "e \<in> set grp" "e' = target (e\<lparr>datum := d\<rparr>)" "kf d = kf (datum e)"
        using kept_char by blast
      then have "kf (datum e') = kf (datum e)" "e \<in> set grp"
        by (simp_all add: target_def)
      then have "rect_key (heap c) e' \<in> set (layer_keys c)"
        unfolding lk rk by blast
      then show False using k by simp
    qed
    then have "e' \<in> set entered" using e' layer by simp
    then have "next_eid c \<le> eid e'" by (rule ent_eid)
    then show "eid e' \<notin> set (map eid (ganttLayer c))"
      using old_eid unfolding grp_def by fastforce
  qed
  have removed: "\<forall>e\<in>set (ganttLayer c).
      rect_key (heap c) e \<notin> set (node_keys c)
        \<longrightarrow> eid e \<notin> set (map eid (ganttLayer (renderGantt c)))"
  proof (intro ballI impI)
    fix e assume e: "e \<in> set (ganttLayer c)" and k: "rect_key (heap c) e \<notin> set (node_keys c)"
    have eg: "e \<in> set grp" using e by (simp add: grp_def)
    have "kf (datum e) \<notin> kf ` set ds" using k unfolding nk rk .
    then have ex: "e \<in> set exit" using exit_iff [OF eg] by simp
    show "eid e \<notin> set (map eid (ganttLayer (renderGantt c)))"
    proof
      assume "eid e \<in> set (map eid (ganttLayer (renderGantt c)))"
      then have "eid e \<in> eid ` (set kept \<union> set entered)"
        unfolding layer by (simp add: image_Un)
      then obtain e' where e': "e' \<in> set kept \<union> set entered" "eid e' = eid e"
        by (elim imageE) simp
      show False
      proof (cases "e' \<in> set kept")
        case True
        then obtain e0 d where e0: "e0 \<in> set grp" "e0 \<notin> set exit" "e' = target (e0\<lparr>datum := d\<rparr>)"
          using kept_char by blast
        then have "eid e0 = eid e" using e'(2) by (simp add: target_def)
        then have "e0 = e" using inj e0(1) eg by (auto dest: inj_onD)
        then show False using e0(2) ex by simp
      next
        case False
        then have "next_eid c \<le> eid e'" using e'(1) ent_eid by blast
        then show False using e'(2) old_eid [OF eg] by simp
      qed
    qed
  qed
  have kept1: "\<exists>e'\<in>set (ganttLayer (renderGantt c)).
                 eid e' = eid e \<and> rect_key (heap c) e' = rect_key (heap c) e \<and>
                 datum e' \<in> set (seriesNodes c) \<and>
                 rect_class e' = rect_class e \<and> fill e' = fill e \<and>
                 pos_x e' = xScale c \<and> pos_y e' = yScale c"
    if e: "e \<in> set (ganttLayer c)" and k: "rect_key (heap c) e \<in> set (node_keys c)"
      and f: "find (\<lambda>e'. rect_key (heap c) e' = rect_key (heap c) e) (ganttLayer c) = Some e"
    for e
  proof -
    have eg: "e \<in> set grp" using e by (simp add: grp_def)
    have "m0 (kf (datum e)) = Some e" using f by (simp add: m0 rk grp_def)
    moreover have "kf (datum e) \<in> kf ` set ds"
      using k unfolding nk rk .
    ultimately have ne: "e \<notin> set exit" using exit_iff [OF eg] by simp
    then obtain d where d: "d \<in> set ds" "upd e = target (e\<lparr>datum := d\<rparr>)" "kf d = kf (datum e)"
      using upd_kept [OF eg] by blast
    have "upd e \<in> set (ganttLayer (renderGantt c))"
      using eg ne layer by (simp add: kept_def)
    then show ?thesis
      using d by (intro bexI [of _ "upd e"]) (simp_all add: rk ds_def target_def)
  qed
  have kept2: "\<exists>e'\<in>set (ganttLayer (renderGantt c)).
                 eid e' = eid e \<and> rect_key (heap c) e' = rect_key (heap c) e"
    if dk: "distinct (layer_keys c)" and e: "e \<in> set (ganttLayer c)"
      and k: "rect_key (heap c) e \<in> set (node_keys c)" for e
  proof -
    have "find (\<lambda>e'. rect_key (heap c) e' = rect_key (heap c) e) (ganttLayer c) = Some e"
      using dk e unfolding layer_keys_def by (rule distinct_map_find)
    then show ?thesis using kept1 [OF e k] by blast
  qed
  have kept1': "\<forall>e\<in>set (ganttLayer c).
            rect_key (heap c) e \<in> set (node_keys c) \<and>
            find (\<lambda>e'. rect_key (heap c) e' = rect_key (heap c) e) (ganttLayer c) = Some e
              \<longrightarrow> (\<exists>e'\<in>set (ganttLayer (renderGantt c)).
                     eid e' = eid e \<and> rect_key (heap c) e' = rect_key (heap c) e \<and>
                     datum e' \<in> set (seriesNodes c) \<and>
                     rect_class e' = rect_class e \<and> fill e' = fill e \<and>
                     pos_x e' = xScale c \<and> pos_y e' = yScale c)"
    using kept1 by blast
  have kept2': "distinct (layer_keys c) \<longrightarrow>
            (\<forall>e\<in>set (ganttLayer c).
               rect_key (heap c) e \<in> set (node_keys c)
                 \<longrightarrow> (\<exists>e'\<in>set (ganttLayer (renderGantt c)).
                        eid e' = eid e \<and> rect_key (heap c) e' = rect_key (heap c) e))"
    using kept2 by blast
  show ?thesis
    by (intro conjI heap' keys created removed kept1' kept2')
qed

theorem renderGantt_reconciles_witness:
  "layer_keys exampleCollapsed = [Some (Uuid 3), Some (Uuid 2)] \<and>
   node_keys exampleCollapsed = [Some (Uuid 3)] \<and>
   layer_keys (renderGantt exampleCollapsed) = [Some (Uuid 3)] \<and>
   map eid (ganttLayer (renderGantt exampleCollapsed)) = [0] \<and>
   layer_keys exampleGantt = [] \<and>
   node_keys exampleGantt = [Some (Uuid 1), Some (Uuid 2)] \<and>
   layer_keys (renderGantt exampleGantt) = [Some (Uuid 1), Some (Uuid 2)] \<and>
   map eid (ganttLayer (renderGantt exampleGantt)) = [0, 1]"
  using renderGantt_reconciles [of exampleCollapsed] renderGantt_reconciles [of exampleGantt]
  by (simp add: layer_keys_def node_keys_def rect_key_def key_of_def renderGantt_def
      bindKey_def bind_group_def exampleCollapsed_def rectA_def rectB_def example_defs
      name_of_def Let_def)

section \<open>The series input\<close>

text \<open>
  What the setter does to the records it is given depends on the helper: the pass
  that the setter runs writes keys and Dates into the records that the helper has
  returned. With a helper that returns the array it was given, the records A and B
  of the caller carry the new keys after the input has been set.
\<close>

lemma set_series_writes_helper_result:
  "map_option (\<lambda>c1. (map (heap c1) [0, 1], map ndata (seriesNodes c1)))
     (set_series (\<lambda>arr s. Some (arr, s)) 3 [0] exampleCaller)
   = Some ([Some (recordA\<lparr>key := Some (Uuid 1)\<rparr>), Some (recordB\<lparr>key := Some (Uuid 2)\<rparr>)],
           [0, 1])"
  by (simp add: set_series_def numeral_3_eq_3 exampleCaller_def example_defs recordA_def
      recordB_def preProcess_def hierarchy_def key_of_def computeHeight_def Let_def
      preProcess_map_def)

end
